theory Spec2Isabelle
  imports Main "HOL-Library.Word"
begin

unbundle bit_operations_syntax

section \<open>Data model of \<open>precompile.c\<close>\<close>

text \<open>
  Julia types as the C code inspects them.  A \<open>jl_datatype_t\<close> carries its type name,
  its parameters and the two flags the code reads (\<open>isconcretetype\<close>,
  \<open>isdispatchtuple\<close>); a \<open>jl_uniontype_t\<close> is a binary node with fields \<open>a\<close> and
  \<open>b\<close>; a \<open>jl_tvar_t\<close> has a name, a lower and an upper bound; a \<open>jl_unionall_t\<close>
  has a variable (name, lower bound, upper bound) and a body.  Tuple types are datatypes
  whose name is \<open>Tuple\<close>.
\<close>

type_synonym sym = string

datatype jl_value =
    Bottom
  | DataType sym "jl_value list" bool bool
  | UnionT jl_value jl_value
  | TVar sym jl_value jl_value
  | UnionAll sym jl_value jl_value jl_value

fun jl_is_uniontype :: "jl_value \<Rightarrow> bool" where
  "jl_is_uniontype (UnionT a b) = True"
| "jl_is_uniontype _ = False"

fun jl_is_datatype :: "jl_value \<Rightarrow> bool" where
  "jl_is_datatype (DataType n ps c d) = True"
| "jl_is_datatype _ = False"

fun jl_is_unionall :: "jl_value \<Rightarrow> bool" where
  "jl_is_unionall (UnionAll n lb ub body) = True"
| "jl_is_unionall _ = False"

fun dt_name :: "jl_value \<Rightarrow> sym" where
  "dt_name (DataType n ps c d) = n"
| "dt_name _ = []"

fun parameters :: "jl_value \<Rightarrow> jl_value list" where
  "parameters (DataType n ps c d) = ps"
| "parameters _ = []"

fun isconcretetype :: "jl_value \<Rightarrow> bool" where
  "isconcretetype (DataType n ps c d) = c"
| "isconcretetype _ = False"

fun isdispatchtuple :: "jl_value \<Rightarrow> bool" where
  "isdispatchtuple (DataType n ps c d) = d"
| "isdispatchtuple _ = False"

text \<open>
  \<open>jl_is_kind\<close> (julia.h) compares against the four kind types \<open>DataType\<close>, \<open>UnionAll\<close>,
  \<open>Union\<close> and \<open>TypeofBottom\<close>; \<open>jl_type_typename\<close> is the name of \<open>Type{T}\<close>;
  \<open>jl_is_concrete_type\<close> and \<open>jl_is_dispatch_tupletype\<close> (julia.h) read the flags of a
  datatype.
\<close>

definition jl_is_kind :: "jl_value \<Rightarrow> bool" where
  "jl_is_kind v \<longleftrightarrow> jl_is_datatype v \<and> parameters v = [] \<and>
     dt_name v \<in> set [''DataType'', ''UnionAll'', ''Union'', ''TypeofBottom'']"

definition jl_type_typename :: sym where
  "jl_type_typename = ''Type''"

definition jl_is_concrete_type :: "jl_value \<Rightarrow> bool" where
  "jl_is_concrete_type v \<longleftrightarrow> jl_is_datatype v \<and> isconcretetype v"

definition jl_is_dispatch_tupletype :: "jl_value \<Rightarrow> bool" where
  "jl_is_dispatch_tupletype v \<longleftrightarrow> jl_is_datatype v \<and> isdispatchtuple v"

text \<open>
  The free type variables of a type, by name: a \<open>UnionAll\<close> binds its variable in its
  body (not in the variable's own bounds).
\<close>

fun free_typevars :: "jl_value \<Rightarrow> sym list" where
  "free_typevars Bottom = []"
| "free_typevars (DataType n ps c d) = concat (map free_typevars ps)"
| "free_typevars (UnionT a b) = free_typevars a @ free_typevars b"
| "free_typevars (TVar n lb ub) = [n]"
| "free_typevars (UnionAll n lb ub body) =
     free_typevars lb @ free_typevars ub @ filter (\<lambda>x. x \<noteq> n) (free_typevars body)"

definition jl_has_free_typevars :: "jl_value \<Rightarrow> bool" where
  "jl_has_free_typevars v \<longleftrightarrow> free_typevars v \<noteq> []"

text \<open>
  The leaves of a nested union, left to right: \<open>jl_count_union_components\<close> counts
  them and \<open>jl_nth_union_component\<close> selects one.
\<close>

fun union_components :: "jl_value \<Rightarrow> jl_value list" where
  "union_components (UnionT a b) = union_components a @ union_components b"
| "union_components v = [v]"

definition jl_count_union_components :: "jl_value \<Rightarrow> nat" where
  "jl_count_union_components v = length (union_components v)"

definition jl_nth_union_component :: "jl_value \<Rightarrow> nat \<Rightarrow> jl_value" where
  "jl_nth_union_component v i = union_components v ! i"

fun jl_unwrap_unionall :: "jl_value \<Rightarrow> jl_value" where
  "jl_unwrap_unionall (UnionAll n lb ub body) = jl_unwrap_unionall body"
| "jl_unwrap_unionall v = v"

fun jl_rewrap_unionall :: "jl_value \<Rightarrow> jl_value \<Rightarrow> jl_value" where
  "jl_rewrap_unionall t (UnionAll n lb ub body) = UnionAll n lb ub (jl_rewrap_unionall t body)"
| "jl_rewrap_unionall t u = t"

fun jl_subtype_env_size :: "jl_value \<Rightarrow> nat" where
  "jl_subtype_env_size (UnionAll n lb ub body) = Suc (jl_subtype_env_size body)"
| "jl_subtype_env_size v = 0"

subsection \<open>Code instances, method instances, methods, modules\<close>

text \<open>
  A \<open>jl_code_instance_t\<close> as the selection reads it: the \<open>invoke\<close> pointer (null, the
  constant-return entry \<open>jl_fptr_const_return\<close>, or some other entry point), the
  \<open>inferred\<close> field (null, \<open>nothing\<close>, or inferred code with its inferred flag and its
  16-bit inlining cost) and the \<open>precompile\<close> flag.  The \<open>next\<close> chain that starts at
  \<open>mi->cache\<close> is a list.
\<close>

datatype jl_callptr = FPTR_NULL | FPTR_CONST_RETURN | FPTR_NATIVE nat

datatype jl_inferred = INFERRED_NULL | INFERRED_NOTHING | INFERRED_IR bool "16 word"

record jl_code_instance =
  invoke :: jl_callptr
  inferred :: jl_inferred
  precompile :: bool

record jl_method_instance =
  mi_id :: nat
  specTypes :: jl_value
  cache :: "jl_code_instance list"

text \<open>
  A \<open>jl_method_t\<close>: \<open>source\<close> is \<open>False\<close> for the C \<open>NULL\<close> (no generic body),
  \<open>ccallable\<close> is the optional alias record, \<open>specializations\<close> is the vector whose
  unused slots hold \<open>nothing\<close> (\<open>None\<close>), \<open>unspecialized\<close> the optional generic
  instance.
\<close>

record jl_method =
  name :: sym
  sig :: jl_value
  source :: bool
  ccallable :: "jl_value option"
  specializations :: "jl_method_instance option list"
  unspecialized :: "jl_method_instance option"

text \<open>
  A method table is the list of methods the typemap visitor reaches through \<open>mt->defs\<close>,
  in visiting order (both callbacks return 1, so the visitor never stops early).
\<close>

record jl_methtable =
  defs :: "jl_method list"

text \<open>An element of a compile set: a method instance or a ccallable alias.\<close>

datatype item = MI jl_method_instance | SVec jl_value

datatype compile_option = COMPILE_OFF | COMPILE_ON | COMPILE_ALL | COMPILE_MIN

text \<open>
  A global is either a type (then \<open>jl_is_type\<close> holds and the hint is for \<open>Type{f}\<close>)
  or another value, of which only its type matters here.
\<close>

datatype jl_global = TypeValue jl_value | OtherValue jl_value

text \<open>
  A module: its global bindings, its compile setting, and the method tables that
  \<open>foreach_mtable_in_module\<close> visits in it, in visiting order.
\<close>

record jl_module =
  mod_id :: nat
  mod_globals :: "(sym \<times> jl_global) list"
  mod_compile :: compile_option
  mod_mtables :: "jl_methtable list"

text \<open>
  The parts of the runtime that \<open>precompile.c\<close> calls and that decide nothing by
  structure alone are parameters of the model: building a tuple type, instantiating a
  signature body in an environment (\<open>None\<close>: the type system raised), the
  concrete-subtype test, the compile hint, the compileable-signature test, wrapping a
  type in \<open>Type{}\<close>, finding the specialization of a method for a signature, the
  generic instance of a method, and the re-resolution of argument types to the
  specialization valid in the current world.
\<close>

record runtime =
  jl_apply_tuple_type :: "jl_value list \<Rightarrow> jl_value"
  jl_instantiate_type_with :: "jl_value \<Rightarrow> (jl_value \<times> jl_value) list \<Rightarrow> jl_value option"
  jl_has_concrete_subtype :: "jl_value \<Rightarrow> bool"
  jl_compile_hint :: "jl_value \<Rightarrow> bool"
  jl_isa_compileable_sig :: "jl_value \<Rightarrow> jl_method \<Rightarrow> bool"
  jl_wrap_Type :: "jl_value \<Rightarrow> jl_value"
  jl_specializations_get_linfo :: "jl_method \<Rightarrow> jl_value \<Rightarrow> jl_method_instance"
  jl_get_unspecialized :: "jl_method \<Rightarrow> jl_method_instance option"
  jl_get_specialization1 :: "jl_value \<Rightarrow> jl_method_instance option"
  mi_def_method :: "jl_method_instance \<Rightarrow> jl_method"

subsection \<open>Modules and the initialization order\<close>

definition jl_get_global :: "jl_module \<Rightarrow> sym \<Rightarrow> jl_global option" where
  "jl_get_global m s = map_of (mod_globals m) s"

definition jl_get_module_compile :: "jl_module \<Rightarrow> compile_option" where
  "jl_get_module_compile m = mod_compile m"

record jl_options =
  outputo :: "string option"
  outputbc :: "string option"
  outputunoptbc :: "string option"
  outputji :: "string option"
  outputasm :: "string option"
  incremental :: bool

definition jl_generating_output :: "jl_options \<Rightarrow> bool" where
  "jl_generating_output opts \<longleftrightarrow>
     outputo opts \<noteq> None \<or> outputbc opts \<noteq> None \<or> outputunoptbc opts \<noteq> None \<or>
     outputji opts \<noteq> None \<or> outputasm opts \<noteq> None"

text \<open>
  The state the first phase of \<open>jl_write_compiler_output\<close> touches: the global
  \<open>jl_module_init_order\<close> (\<open>None\<close> is the C \<open>NULL\<close>), the signatures hinted so far and
  the warnings printed.
\<close>

record out_state =
  jl_module_init_order :: "jl_module list option"
  hinted :: "jl_value list"
  warnings :: "string list"

definition init_hint_type :: "runtime \<Rightarrow> jl_global \<Rightarrow> jl_value" where
  "init_hint_type rt f =
     (let tt = (case f of TypeValue t \<Rightarrow> jl_wrap_Type rt t | OtherValue ty \<Rightarrow> ty)
      in jl_apply_tuple_type rt [tt])"

fun init_order_loop :: "runtime \<Rightarrow> jl_module list \<Rightarrow> out_state \<Rightarrow> out_state" where
  "init_order_loop rt [] st = st"
| "init_order_loop rt (m # ms) st =
     (case jl_get_global m ''__init__'' of
        None \<Rightarrow> init_order_loop rt ms st
      | Some f \<Rightarrow>
          (let st1 = st\<lparr>jl_module_init_order := map_option (\<lambda>a. a @ [m]) (jl_module_init_order st)\<rparr>;
               setting = jl_get_module_compile m;
               st2 = (if setting \<noteq> COMPILE_OFF \<and> setting \<noteq> COMPILE_MIN
                      then st1\<lparr>hinted := hinted st1 @ [init_hint_type rt f]\<rparr>
                      else st1)
           in init_order_loop rt ms st2))"

text \<open>
  Lines 77 to 108 of \<open>jl_write_compiler_output\<close>: the two early returns, then the
  worklist is the old initialization order and the global is rebuilt from it.  The
  result pairs the worklist (\<open>None\<close> when the function returned early) with the state.
\<close>

definition jl_write_compiler_output_init ::
  "runtime \<Rightarrow> jl_options \<Rightarrow> out_state \<Rightarrow> jl_module list option \<times> out_state" where
  "jl_write_compiler_output_init rt opts st =
     (if \<not> jl_generating_output opts then (None, st)
      else case jl_module_init_order st of
        None \<Rightarrow> (None, st\<lparr>warnings := warnings st @
                   [''WARNING: --output requested, but no modules defined during run'']\<rparr>)
      | Some worklist \<Rightarrow>
          (Some worklist, init_order_loop rt worklist (st\<lparr>jl_module_init_order := Some []\<rparr>)))"

subsection \<open>Incremental selection\<close>

definition UINT16_MAX :: "16 word" where
  "UINT16_MAX = 0xFFFF"

text \<open>
  Names that end in an underscore in the source end in a prime here
  (\<open>precompile_enq_specialization_\<close> is \<open>precompile_enq_specialization'\<close>, and so on; a
  second trailing underscore is kept before the prime).
  The body of the \<open>while (codeinst)\<close> loop of \<open>precompile_enq_specialization_\<close>: the
  value of \<open>do_compile\<close> for one code instance.
\<close>

definition do_compile :: "jl_code_instance \<Rightarrow> bool" where
  "do_compile codeinst =
     (if invoke codeinst \<noteq> FPTR_CONST_RETURN then
        (if (case inferred codeinst of
               INFERRED_NULL \<Rightarrow> False
             | INFERRED_NOTHING \<Rightarrow> False
             | INFERRED_IR flag_inferred inlining_cost \<Rightarrow>
                 flag_inferred \<and> inlining_cost = UINT16_MAX)
         then True
         else if invoke codeinst \<noteq> FPTR_NULL \<or> precompile codeinst then True
         else False)
      else False)"

fun enq_chain :: "jl_code_instance list \<Rightarrow> jl_method_instance \<Rightarrow> item list \<Rightarrow> item list" where
  "enq_chain [] mi closure = closure"
| "enq_chain (codeinst # next) mi closure =
     (if do_compile codeinst then closure @ [MI mi] else enq_chain next mi closure)"

definition precompile_enq_specialization' :: "jl_method_instance \<Rightarrow> item list \<Rightarrow> item list" where
  "precompile_enq_specialization' mi closure = enq_chain (cache mi) mi closure"

fun enq_specializations :: "jl_method_instance option list \<Rightarrow> item list \<Rightarrow> item list" where
  "enq_specializations [] closure = closure"
| "enq_specializations (None # rest) closure = enq_specializations rest closure"
| "enq_specializations (Some mi # rest) closure =
     enq_specializations rest (precompile_enq_specialization' mi closure)"

definition precompile_enq_all_specializations_' ::
  "runtime \<Rightarrow> jl_method \<Rightarrow> item list \<Rightarrow> item list" where
  "precompile_enq_all_specializations_' rt m closure =
     (let closure1 =
        (if (name m = ''__init__'' \<or> ccallable m \<noteq> None) \<and> jl_is_dispatch_tupletype (sig m)
         then closure @ [MI (jl_specializations_get_linfo rt m (sig m))]
         else enq_specializations (specializations m) closure)
      in case ccallable m of
           None \<Rightarrow> closure1
         | Some alias \<Rightarrow> closure1 @ [SVec alias])"

definition precompile_enq_all_specializations' ::
  "runtime \<Rightarrow> jl_methtable \<Rightarrow> item list \<Rightarrow> item list" where
  "precompile_enq_all_specializations' rt mt env =
     fold (precompile_enq_all_specializations_' rt) (defs mt) env"

text \<open>
  \<open>foreach_mtable_in_module\<close> applies the visitor to the method tables of the module.
\<close>

definition foreach_mtable_in_module ::
  "jl_module \<Rightarrow> (jl_methtable \<Rightarrow> item list \<Rightarrow> item list) \<Rightarrow> item list \<Rightarrow> item list" where
  "foreach_mtable_in_module md visit env = fold visit (mod_mtables md) env"

text \<open>
  \<open>jl_precompile_\<close>: every method instance that is not the generic instance of its
  method and whose types are not a compileable signature is re-resolved (and dropped
  when that yields \<open>NULL\<close>); aliases are kept.  The result is the array handed to
  \<open>jl_create_native\<close>.
\<close>

fun jl_precompile' :: "runtime \<Rightarrow> item list \<Rightarrow> item list" where
  "jl_precompile' rt [] = []"
| "jl_precompile' rt (MI mi # rest) =
     (let mi' = (if Some mi \<noteq> unspecialized (mi_def_method rt mi) \<and>
                    \<not> jl_isa_compileable_sig rt (specTypes mi) (mi_def_method rt mi)
                 then jl_get_specialization1 rt (specTypes mi)
                 else Some mi)
      in case mi' of
           None \<Rightarrow> jl_precompile' rt rest
         | Some x \<Rightarrow> MI x # jl_precompile' rt rest)"
| "jl_precompile' rt (SVec alias # rest) = SVec alias # jl_precompile' rt rest"

text \<open>
  The array of found method instances that \<open>jl_precompile_worklist\<close> collects over the
  modules of the worklist, and the function itself (\<open>None\<close>: the worklist is \<open>NULL\<close>).
\<close>

definition worklist_found :: "runtime \<Rightarrow> jl_module list \<Rightarrow> item list" where
  "worklist_found rt worklist =
     fold (\<lambda>md m. foreach_mtable_in_module md (precompile_enq_all_specializations' rt) m)
       worklist []"

definition jl_precompile_worklist :: "runtime \<Rightarrow> jl_module list option \<Rightarrow> item list option" where
  "jl_precompile_worklist rt worklist =
     (case worklist of
        None \<Rightarrow> None
      | Some w \<Rightarrow> Some (jl_precompile' rt (worklist_found rt w)))"

subsection \<open>The union-splitting enumerator\<close>

text \<open>
  What the enumerator does to the outside is recorded as a trace: a call of
  \<open>_compile_all_tvar_union\<close> with its argument, and a call of \<open>jl_compile_hint\<close> with
  its argument.  The two functions \<open>_compile_all_tvar_union\<close> and \<open>_compile_all_union\<close>
  are named here without the leading underscore.
\<close>

datatype event = TvarUnion jl_value | Hint jl_value

fun tvar_name :: "jl_value \<Rightarrow> sym" where
  "tvar_name (TVar n l u) = n"
| "tvar_name _ = []"

fun tvar_lb :: "jl_value \<Rightarrow> jl_value" where
  "tvar_lb (TVar n l u) = l"
| "tvar_lb _ = Bottom"

fun tvar_ub :: "jl_value \<Rightarrow> jl_value" where
  "tvar_ub (TVar n l u) = u"
| "tvar_ub _ = Bottom"

text \<open>
  The arrays \<open>env\<close> and \<open>idx\<close> of \<open>_compile_all_tvar_union\<close> together: slot \<open>i\<close> holds
  \<open>env[2 * i]\<close> (the variable), \<open>env[2 * i + 1]\<close> (its current binding) and \<open>idx[i]\<close>.
  The first loop (lines 199 to 205) peels \<open>tvarslen\<close> \<open>UnionAll\<close> wrappers, binding every
  variable to \<open>Union{}\<close>.
\<close>

type_synonym slot = "jl_value \<times> jl_value \<times> nat"

fun tvar_init :: "nat \<Rightarrow> jl_value \<Rightarrow> slot list \<times> jl_value" where
  "tvar_init 0 sigbody = ([], sigbody)"
| "tvar_init (Suc k) (UnionAll n l u body) =
     (case tvar_init k body of (slots, b) \<Rightarrow> ((TVar n l u, Bottom, 0) # slots, b))"
| "tvar_init (Suc k) sigbody = ([], sigbody)"

definition slots_env :: "slot list \<Rightarrow> (jl_value \<times> jl_value) list" where
  "slots_env slots = map (\<lambda>(tv, v, j). (tv, v)) slots"

text \<open>
  Lines 208 to 222: instantiate the body in the current environment; an exception
  (\<open>None\<close>) is caught and leads to \<open>getnext\<close>, and so does a signature without a concrete
  subtype; a concrete signature is hinted, and the result of the hint is not used.
\<close>

definition tvar_try :: "runtime \<Rightarrow> jl_value \<Rightarrow> slot list \<Rightarrow> event list \<Rightarrow> event list" where
  "tvar_try rt sigbody slots tr =
     (case jl_instantiate_type_with rt sigbody (slots_env slots) of
        None \<Rightarrow> tr
      | Some s \<Rightarrow>
          if \<not> jl_has_concrete_subtype rt s then tr
          else if jl_is_concrete_type s then tr @ [Hint s]
          else tr)"

text \<open>
  Lines 225 to 246, the inner \<open>for\<close> loop after \<open>getnext\<close>: it returns the updated slots
  and the value of \<open>i\<close> at which it stopped, counted from the slot it started at (the
  number of slots when it ran to the end without \<open>break\<close>).
\<close>

fun getnext :: "slot list \<Rightarrow> slot list \<times> nat" where
  "getnext [] = ([], 0)"
| "getnext ((tv, v, j) # rest) =
     (if jl_is_uniontype (tvar_ub tv) then
        (let l = jl_count_union_components (tvar_ub tv) in
         if j = l then
           (case getnext rest of (rest', i) \<Rightarrow> ((tv, Bottom, 0) # rest', Suc i))
         else
           (let ty = jl_nth_union_component (tvar_ub tv) j;
                ty' = (if \<not> jl_is_concrete_type ty then TVar (tvar_name tv) (tvar_lb tv) ty else ty)
            in ((tv, ty', j + 1) # rest, 0)))
      else
        (case getnext rest of (rest', i) \<Rightarrow> ((tv, tv, j) # rest', Suc i)))"

text \<open>
  The outer loop of line 207, \<open>for (i = 0; i < tvarslen; )\<close>.  It may in principle run
  forever, so it is a partial function: \<open>None\<close> stands for not returning.
\<close>

partial_function (option) tvar_loop ::
  "runtime \<Rightarrow> jl_value \<Rightarrow> nat \<Rightarrow> slot list \<Rightarrow> nat \<Rightarrow> event list \<Rightarrow> event list option" where
  "tvar_loop rt sigbody tvarslen slots i tr =
     (if i < tvarslen then
        (case getnext slots of (slots', i') \<Rightarrow>
           tvar_loop rt sigbody tvarslen slots' i' (tvar_try rt sigbody slots tr))
      else Some tr)"

declare tvar_loop.simps [code]

definition compile_all_tvar_union :: "runtime \<Rightarrow> jl_value \<Rightarrow> event list \<Rightarrow> event list option" where
  "compile_all_tvar_union rt methsig tr =
     (let tvarslen = jl_subtype_env_size methsig in
      case tvar_init tvarslen methsig of (slots, sigbody) \<Rightarrow>
        tvar_loop rt sigbody tvarslen slots 0 (tr @ [TvarUnion methsig]))"

text \<open>
  \<open>_compile_all_union\<close>.  Lines 261 to 271 scan the parameters, counting the unions;
  \<open>None\<close> is one of the two early returns.
\<close>

fun scan_params :: "jl_value list \<Rightarrow> nat \<Rightarrow> nat option" where
  "scan_params [] count_unions = Some count_unions"
| "scan_params (ty # tys) count_unions =
     (if jl_is_uniontype ty then scan_params tys (count_unions + 1)
      else if ty = Bottom then None
      else if jl_is_datatype ty \<and> \<not> jl_has_free_typevars ty \<and>
              ((\<not> jl_is_kind ty \<and> isconcretetype ty) \<or> dt_name ty = jl_type_typename)
           then None
      else scan_params tys count_unions)"

text \<open>
  Lines 286 to 309, one pass of the \<open>for\<close> loop over the parameters.  \<open>idx_ctr\<close> advances
  with the union parameters, so the digit \<open>idx[idx_ctr]\<close> of the current union parameter
  is the head of the digits not yet visited.  The pass returns the new parameter
  vector \<open>p\<close>, the digits and the flag \<open>incr\<close>.  (When the digits run out the assertion
  of line 290 fails; this does not happen, the digits being as many as the unions.)
\<close>

fun union_pass :: "jl_value list \<Rightarrow> nat list \<Rightarrow> bool \<Rightarrow> jl_value list \<times> nat list \<times> bool" where
  "union_pass [] idx incr = ([], idx, incr)"
| "union_pass (ty # tys) idx incr =
     (if jl_is_uniontype ty then
        (case idx of
           [] \<Rightarrow> ([], [], incr)
         | j # rest \<Rightarrow>
             (let l = jl_count_union_components ty;
                  c = jl_nth_union_component ty j;
                  d = (if incr then (if j + 1 = l then 0 else j + 1) else j);
                  incr' = (incr \<and> j + 1 = l)
              in case union_pass tys rest incr' of
                   (p, rest', incr'') \<Rightarrow> (c # p, d # rest', incr'')))
      else
        (case union_pass tys idx incr of
           (p, idx', incr') \<Rightarrow> (ty # p, idx', incr')))"

text \<open>The \<open>while (!incr)\<close> loop of lines 285 to 313; its body runs at least once.\<close>

partial_function (option) union_loop ::
  "runtime \<Rightarrow> jl_value \<Rightarrow> jl_value list \<Rightarrow> nat list \<Rightarrow> event list \<Rightarrow> event list option" where
  "union_loop rt sg params idx tr =
     (case union_pass params idx True of (p, idx', incr) \<Rightarrow>
        (case compile_all_tvar_union rt (jl_rewrap_unionall (jl_apply_tuple_type rt p) sg) tr of
           None \<Rightarrow> None
         | Some tr' \<Rightarrow> if incr then Some tr' else union_loop rt sg params idx' tr'))"

declare union_loop.simps [code]

definition compile_all_union :: "runtime \<Rightarrow> jl_value \<Rightarrow> event list \<Rightarrow> event list option" where
  "compile_all_union rt sg tr =
     (let sigbody = jl_unwrap_unionall sg;
          params = parameters sigbody
      in case scan_params params 0 of
           None \<Rightarrow> Some tr
         | Some count_unions \<Rightarrow>
             if count_unions = 0 \<or> count_unions \<ge> 6 then compile_all_tvar_union rt sg tr
             else union_loop rt sg params (replicate count_unions 0) tr)"

subsection \<open>Full-sweep selection\<close>

definition compile_all_collect_' :: "jl_method \<Rightarrow> jl_method list \<Rightarrow> jl_method list" where
  "compile_all_collect_' m allmeths = (if source m then allmeths @ [m] else allmeths)"

definition compile_all_collect' :: "jl_methtable \<Rightarrow> jl_method list \<Rightarrow> jl_method list" where
  "compile_all_collect' mt env = fold compile_all_collect_' (defs mt) env"

text \<open>
  The loop of \<open>jl_compile_all_defs\<close> over the collected methods, on the trace and the
  array \<open>mis\<close>; \<open>None\<close> when the enumerator does not return.
\<close>

fun compile_all_defs_loop ::
  "runtime \<Rightarrow> jl_method list \<Rightarrow> event list \<times> item list \<Rightarrow> (event list \<times> item list) option" where
  "compile_all_defs_loop rt [] st = Some st"
| "compile_all_defs_loop rt (m # ms) (tr, mis) =
     (if jl_isa_compileable_sig rt (sig m) m then
        compile_all_defs_loop rt ms (tr @ [Hint (sig m)], mis)
      else
        (case compile_all_union rt (sig m) tr of
           None \<Rightarrow> None
         | Some tr' \<Rightarrow>
             compile_all_defs_loop rt ms
               (tr', case jl_get_unspecialized rt m of
                       None \<Rightarrow> mis
                     | Some unspec \<Rightarrow> mis @ [MI unspec])))"

text \<open>
  \<open>jl_compile_all_defs\<close>, given the method tables that \<open>jl_foreach_reachable_mtable\<close>
  visits.
\<close>

definition jl_compile_all_defs ::
  "runtime \<Rightarrow> jl_methtable list \<Rightarrow> event list \<times> item list \<Rightarrow> (event list \<times> item list) option" where
  "jl_compile_all_defs rt reachable st =
     compile_all_defs_loop rt (fold compile_all_collect' reachable []) st"

subsection \<open>Notions used to state the enumeration properties\<close>

text \<open>
  The mixed-radix representation of a number, least significant digit first:
  \<open>decode [a, b, c] n\<close> is the digit vector of \<open>n\<close> in radices \<open>a\<close>, \<open>b\<close>, \<open>c\<close>.
\<close>

fun decode :: "nat list \<Rightarrow> nat \<Rightarrow> nat list" where
  "decode [] n = []"
| "decode (r # rs) n = (n mod r) # decode rs (n div r)"

text \<open>The alternative counts of the union parameters of a parameter list, in order.\<close>

definition union_radices :: "jl_value list \<Rightarrow> nat list" where
  "union_radices tys = map jl_count_union_components (filter jl_is_uniontype tys)"

text \<open>
  The parameter list in which every union parameter is replaced by the alternative its
  digit selects, and every other parameter is left as it is.
\<close>

fun subst_unions :: "jl_value list \<Rightarrow> nat list \<Rightarrow> jl_value list" where
  "subst_unions [] ds = []"
| "subst_unions (ty # tys) ds =
     (if jl_is_uniontype ty then
        (case ds of
           [] \<Rightarrow> []
         | j # rest \<Rightarrow> jl_nth_union_component ty j # subst_unions tys rest)
      else ty # subst_unions tys ds)"

text \<open>The signature handed to the type-variable splitter for a digit vector.\<close>

definition combination :: "runtime \<Rightarrow> jl_value \<Rightarrow> nat list \<Rightarrow> jl_value" where
  "combination rt sg ds =
     jl_rewrap_unionall
       (jl_apply_tuple_type rt (subst_unions (parameters (jl_unwrap_unionall sg)) ds)) sg"

text \<open>The calls of the type-variable splitter and the hints in a trace.\<close>

fun tvar_calls :: "event list \<Rightarrow> jl_value list" where
  "tvar_calls [] = []"
| "tvar_calls (TvarUnion s # tr) = s # tvar_calls tr"
| "tvar_calls (Hint s # tr) = tvar_calls tr"

fun hints :: "event list \<Rightarrow> jl_value list" where
  "hints [] = []"
| "hints (TvarUnion s # tr) = hints tr"
| "hints (Hint s # tr) = s # hints tr"

text \<open>
  The parameter at which the scan of \<open>_compile_all_union\<close> gives up: \<open>Union{}\<close>, or a
  datatype without free type variables that is concrete and not a kind, or that is a
  \<open>Type{}\<close>.
\<close>

definition abandons :: "jl_value \<Rightarrow> bool" where
  "abandons ty \<longleftrightarrow>
     \<not> jl_is_uniontype ty \<and>
     (ty = Bottom \<or>
      (jl_is_datatype ty \<and> \<not> jl_has_free_typevars ty \<and>
       ((\<not> jl_is_kind ty \<and> isconcretetype ty) \<or> dt_name ty = jl_type_typename)))"

text \<open>
  For the type-variable splitter: the radix and the digit of a slot (a variable whose
  upper bound is a union of \<open>l\<close> alternatives runs through \<open>Union{}\<close> and the \<open>l\<close>
  alternatives; any other variable has a single position), the number a slot list
  stands for, and the number of all slot lists.
\<close>

definition slot_radix :: "slot \<Rightarrow> nat" where
  "slot_radix s = (case s of (tv, v, j) \<Rightarrow>
     if jl_is_uniontype (tvar_ub tv) then jl_count_union_components (tvar_ub tv) + 1 else 1)"

definition slot_digit :: "slot \<Rightarrow> nat" where
  "slot_digit s = (case s of (tv, v, j) \<Rightarrow> if jl_is_uniontype (tvar_ub tv) then j else 0)"

fun slots_rank :: "slot list \<Rightarrow> nat" where
  "slots_rank [] = 0"
| "slots_rank (s # ss) = slot_digit s + slot_radix s * slots_rank ss"

definition slots_total :: "slot list \<Rightarrow> nat" where
  "slots_total ss = prod_list (map slot_radix ss)"

definition slots_ok :: "slot list \<Rightarrow> bool" where
  "slots_ok ss = list_all (\<lambda>s. slot_digit s < slot_radix s) ss"

text \<open>
  The environments the type-variable splitter tries, in order, starting from a slot
  list: at most \<open>k\<close> of them, following \<open>getnext\<close> until it runs to the end.
\<close>

fun tvar_combos :: "nat \<Rightarrow> slot list \<Rightarrow> slot list list" where
  "tvar_combos 0 ss = []"
| "tvar_combos (Suc k) ss =
     ss # (case getnext ss of (ss', i) \<Rightarrow> if i < length ss then tvar_combos k ss' else [])"

definition tvar_combinations :: "jl_value \<Rightarrow> slot list list" where
  "tvar_combinations methsig =
     (let tvarslen = jl_subtype_env_size methsig in
      case tvar_init tvarslen methsig of (slots, sigbody) \<Rightarrow>
        if tvarslen = 0 then [] else tvar_combos (slots_total slots) slots)"

definition tvar_sigbody :: "jl_value \<Rightarrow> jl_value" where
  "tvar_sigbody methsig = snd (tvar_init (jl_subtype_env_size methsig) methsig)"

text \<open>
  What becomes of one combination: nothing when the instantiation raises, nothing when
  the instantiated signature has no concrete subtype, nothing when it is not a
  concrete type, a hint otherwise.
\<close>

definition fate :: "runtime \<Rightarrow> jl_value \<Rightarrow> slot list \<Rightarrow> event list" where
  "fate rt sigbody slots =
     (case jl_instantiate_type_with rt sigbody (slots_env slots) of
        None \<Rightarrow> []
      | Some s \<Rightarrow>
          if jl_has_concrete_subtype rt s \<and> jl_is_concrete_type s then [Hint s] else [])"

subsection \<open>Streams and the source-text block\<close>

text \<open>
  An in-memory \<open>ios_t\<close>: the buffer and the position \<open>bpos\<close>; the size of the stream is
  the length of the buffer.  A write overwrites from the position on and extends the
  buffer where it runs past the end; a seek beyond the size fails and leaves the
  position where it was.
\<close>

type_synonym byte = "8 word"

record ios =
  buf :: "byte list"
  bpos :: nat

definition ios_pos :: "ios \<Rightarrow> nat" where
  "ios_pos s = bpos s"

definition ios_seek :: "ios \<Rightarrow> nat \<Rightarrow> ios" where
  "ios_seek s pos = (if pos > length (buf s) then s else s\<lparr>bpos := pos\<rparr>)"

definition ios_seek_end :: "ios \<Rightarrow> ios" where
  "ios_seek_end s = s\<lparr>bpos := length (buf s)\<rparr>"

definition ios_write :: "ios \<Rightarrow> byte list \<Rightarrow> ios" where
  "ios_write s data =
     s\<lparr>buf := take (bpos s) (buf s) @ data @ drop (bpos s + length data) (buf s),
       bpos := bpos s + length data\<rparr>"

text \<open>
  \<open>write_int32\<close> and \<open>write_uint64\<close> (serialize.h) write the bytes of the integer as
  they lie in memory, least significant byte first on the machines Julia runs on.
\<close>

fun le_bytes :: "nat \<Rightarrow> nat \<Rightarrow> byte list" where
  "le_bytes 0 v = []"
| "le_bytes (Suc k) v = of_nat (v mod 256) # le_bytes k (v div 256)"

fun le_nat :: "byte list \<Rightarrow> nat" where
  "le_nat [] = 0"
| "le_nat (b # bs) = unat b + 256 * le_nat bs"

definition write_int32 :: "ios \<Rightarrow> 32 word \<Rightarrow> ios" where
  "write_int32 s i = ios_write s (le_bytes 4 (unat i))"

definition write_uint64 :: "ios \<Rightarrow> 64 word \<Rightarrow> ios" where
  "write_uint64 s i = ios_write s (le_bytes 8 (unat i))"

definition read_uint64 :: "byte list \<Rightarrow> nat \<Rightarrow> 64 word" where
  "read_uint64 bs pos = of_nat (le_nat (take 8 (drop pos bs)))"

text \<open>
  A dependency is a pair of a module (its id) and the path, a Julia string, here its
  bytes.  \<open>jl_string_data\<close> is NUL-terminated, so \<open>depstr[0]\<close> is zero for the empty
  string and for a string that starts with a NUL byte, and \<open>ios_file\<close> opens the file
  named by the bytes before the first NUL.  The file system is a function from
  such names to contents, \<open>None\<close> when the file cannot be opened.
\<close>

type_synonym dep = "nat \<times> byte list"

definition depstr_empty :: "byte list \<Rightarrow> bool" where
  "depstr_empty dep = (case dep of [] \<Rightarrow> True | b # bs \<Rightarrow> b = 0)"

definition c_string :: "byte list \<Rightarrow> byte list" where
  "c_string dep = takeWhile (\<lambda>b. b \<noteq> 0) dep"

text \<open>
  The body of the loop of \<open>write_srctext\<close> (lines 44 to 69) for one dependency, on the
  stream and the list of paths warned about.  \<open>ios_copyall\<close> writes the whole file at
  the position of the stream and returns the number of bytes.
\<close>

definition write_srctext_dep ::
  "(byte list \<Rightarrow> byte list option) \<Rightarrow> nat \<Rightarrow> dep \<Rightarrow> ios \<times> byte list list \<Rightarrow> ios \<times> byte list list" where
  "write_srctext_dep fs jl_main_module deptuple st =
     (case st of (f, warned) \<Rightarrow>
      case deptuple of (depmod, dep) \<Rightarrow>
        if depmod \<noteq> jl_main_module then
          (if depstr_empty dep then (f, warned)
           else case fs (c_string dep) of
             None \<Rightarrow> (f, warned @ [dep])
           | Some srctext \<Rightarrow>
               (let slen = length dep;
                    f1 = write_int32 f (of_nat slen);
                    f2 = ios_write f1 dep;
                    posfile = ios_pos f2;
                    f3 = write_uint64 f2 0;
                    f4 = ios_write f3 srctext;
                    filelen = (of_nat (length srctext) :: 64 word);
                    f5 = ios_seek f4 posfile;
                    f6 = write_uint64 f5 filelen;
                    f7 = ios_seek_end f6
                in (f7, warned)))
        else (f, warned))"

definition write_srctext ::
  "(byte list \<Rightarrow> byte list option) \<Rightarrow> nat \<Rightarrow> ios \<Rightarrow> dep list option \<Rightarrow> nat \<Rightarrow> ios \<times> byte list list" where
  "write_srctext fs jl_main_module f udeps srctextpos =
     (let st = (case udeps of
                  None \<Rightarrow> (f, [])
                | Some deps \<Rightarrow>
                    (let posfile = ios_pos f;
                         f1 = ios_seek f srctextpos;
                         f2 = write_uint64 f1 (of_nat posfile);
                         f3 = ios_seek_end f2
                     in fold (write_srctext_dep fs jl_main_module) deps (f3, [])))
      in case st of (f', warned) \<Rightarrow> (write_int32 f' 0, warned))"

text \<open>
  Lines 148 to 158 of \<open>jl_write_compiler_output\<close>, the patching of the header in an
  incremental build.  \<open>jl_crc32c\<close> is a parameter, applied to the initial value and the
  bytes of the range; the three positions come from \<open>jl_create_system_image\<close>.
\<close>

text \<open>
  A list with the bytes from position \<open>p\<close> on replaced by \<open>d\<close>: what a write at
  \<open>p\<close> makes of the buffer.
\<close>

definition overwrite :: "nat \<Rightarrow> byte list \<Rightarrow> byte list \<Rightarrow> byte list" where
  "overwrite p d bs = take p bs @ d @ drop (p + length d) bs"



subsection \<open>Reading the source-text block back\<close>

text \<open>
  The files that \<open>write_srctext\<close> includes, with their contents, and the record it is
  to write for one of them.
\<close>

definition included :: "(byte list \<Rightarrow> byte list option) \<Rightarrow> nat \<Rightarrow> dep list \<Rightarrow> (byte list \<times> byte list) list" where
  "included fs jl_main_module deps =
     concat (map (\<lambda>(depmod, dep).
        if depmod \<noteq> jl_main_module \<and> \<not> depstr_empty dep
        then (case fs (c_string dep) of None \<Rightarrow> [] | Some srctext \<Rightarrow> [(dep, srctext)])
        else []) deps)"

definition srctext_record :: "byte list \<times> byte list \<Rightarrow> byte list" where
  "srctext_record r = (case r of (dep, srctext) \<Rightarrow>
     le_bytes 4 (length dep) @ dep @ le_bytes 8 (length srctext) @ srctext)"

definition srctext_block :: "(byte list \<times> byte list) list \<Rightarrow> byte list" where
  "srctext_block files = concat (map srctext_record files) @ le_bytes 4 0"

text \<open>
  Modelled from the spec: the reader of the source-text block, which is not in
  \<open>precompile.c\<close>.  It reads records \<open>[int32 path-length][path][uint64 byte-count][bytes]\<close>
  until the path length is zero, and returns the files with the bytes after the
  sentinel, which it does not touch; \<open>None\<close> when the input ends inside a record.
\<close>

function read_srctext :: "byte list \<Rightarrow> ((byte list \<times> byte list) list \<times> byte list) option" where
  "read_srctext bs =
     (if length bs < 4 then None
      else
        (let n = le_nat (take 4 bs); r1 = drop 4 bs in
         if n = 0 then Some ([], r1)
         else if length r1 < n + 8 then None
         else
           (let path = take n r1;
                r2 = drop n r1;
                len = le_nat (take 8 r2);
                r3 = drop 8 r2
            in if length r3 < len then None
               else (case read_srctext (drop len r3) of
                       None \<Rightarrow> None
                     | Some (files, rest) \<Rightarrow> Some ((path, take len r3) # files, rest)))))"
  by pat_completeness auto
termination
  by (relation "measure length") auto

declare read_srctext.simps [simp del]

section \<open>Sample inputs\<close>

text \<open>
  A small runtime and a few types, modules and methods on which the theorems are
  evaluated.  The sample runtime builds a tuple type that is concrete exactly when all
  its parameters are, instantiates by substituting the environment for the type
  variables (it never raises), and takes a type with a \<open>Union{}\<close> parameter to have no
  concrete subtype.
\<close>

definition ty_Int :: jl_value where
  "ty_Int = DataType ''Int'' [] True False"

definition ty_A :: jl_value where
  "ty_A = DataType ''A'' [] True False"

definition ty_B :: jl_value where
  "ty_B = DataType ''B'' [] True False"

definition ty_C :: jl_value where
  "ty_C = DataType ''C'' [] True False"

definition ty_Integer :: jl_value where
  "ty_Integer = DataType ''Integer'' [] False False"

definition ty_DataType :: jl_value where
  "ty_DataType = DataType ''DataType'' [] True False"

definition ty_typeof_init :: jl_value where
  "ty_typeof_init = DataType ''typeof(__init__)'' [] True False"

fun subst_env :: "(jl_value \<times> jl_value) list \<Rightarrow> sym \<Rightarrow> jl_value option" where
  "subst_env [] x = None"
| "subst_env ((TVar n lb ub, v) # env) x = (if n = x then Some v else subst_env env x)"
| "subst_env (_ # env) x = subst_env env x"

fun sample_instantiate :: "jl_value \<Rightarrow> (jl_value \<times> jl_value) list \<Rightarrow> jl_value" where
  "sample_instantiate Bottom env = Bottom"
| "sample_instantiate (DataType n ps c d) env =
     (let ps' = map (\<lambda>p. sample_instantiate p env) ps;
          conc = (if ps = [] then c else list_all jl_is_concrete_type ps')
      in DataType n ps' conc (conc \<and> n = ''Tuple''))"
| "sample_instantiate (UnionT a b) env = UnionT (sample_instantiate a env) (sample_instantiate b env)"
| "sample_instantiate (TVar n lb ub) env =
     (case subst_env env n of Some v \<Rightarrow> v | None \<Rightarrow> TVar n lb ub)"
| "sample_instantiate (UnionAll n lb ub body) env = UnionAll n lb ub (sample_instantiate body env)"

definition sample_rt :: runtime where
  "sample_rt = \<lparr>
     jl_apply_tuple_type = (\<lambda>p. DataType ''Tuple'' p (list_all jl_is_concrete_type p)
                                  (list_all jl_is_concrete_type p)),
     jl_instantiate_type_with = (\<lambda>body env. Some (sample_instantiate body env)),
     jl_has_concrete_subtype = (\<lambda>v. v \<noteq> Bottom \<and> Bottom \<notin> set (parameters v)),
     jl_compile_hint = jl_is_concrete_type,
     jl_isa_compileable_sig = (\<lambda>t m. jl_is_dispatch_tupletype t),
     jl_wrap_Type = (\<lambda>t. DataType ''Type'' [t] False False),
     jl_specializations_get_linfo = (\<lambda>m t. \<lparr>mi_id = 0, specTypes = t, cache = []\<rparr>),
     jl_get_unspecialized = unspecialized,
     jl_get_specialization1 = (\<lambda>t. None),
     mi_def_method = (\<lambda>mi. \<lparr>name = ''f'', sig = specTypes mi, source = True, ccallable = None,
                              specializations = [], unspecialized = None\<rparr>)\<rparr>"

definition sample_opts :: jl_options where
  "sample_opts = \<lparr>outputo = None, outputbc = None, outputunoptbc = None,
                   outputji = Some ''out.ji'', outputasm = None, incremental = True\<rparr>"

definition mod_with_init :: "nat \<Rightarrow> jl_module" where
  "mod_with_init i = \<lparr>mod_id = i, mod_globals = [(''__init__'', OtherValue ty_typeof_init)],
                       mod_compile = COMPILE_ON, mod_mtables = []\<rparr>"

definition mod_without_init :: "nat \<Rightarrow> jl_module" where
  "mod_without_init i = \<lparr>mod_id = i, mod_globals = [(''f'', OtherValue ty_A)],
                          mod_compile = COMPILE_ON, mod_mtables = []\<rparr>"

text \<open>
  A method named \<open>__init__\<close> whose declared signature \<open>Tuple{typeof(__init__), Integer}\<close>
  is not a dispatch tuple, never called (no specializations), in a module of its own;
  and a ccallable method \<open>f(::Int)\<close> with one specialization whose cache is empty.
\<close>

definition init_abstract :: jl_method where
  "init_abstract = \<lparr>name = ''__init__'',
      sig = DataType ''Tuple'' [ty_typeof_init, ty_Integer] False False,
      source = True, ccallable = None, specializations = [], unspecialized = None\<rparr>"

definition mod_init_abstract :: jl_module where
  "mod_init_abstract = \<lparr>mod_id = 7, mod_globals = [(''__init__'', OtherValue ty_typeof_init)],
      mod_compile = COMPILE_ON, mod_mtables = [\<lparr>defs = [init_abstract]\<rparr>]\<rparr>"

definition sig_f_Int :: jl_value where
  "sig_f_Int = DataType ''Tuple'' [DataType ''typeof(f)'' [] True False, ty_Int] True True"

definition f_ccallable :: jl_method where
  "f_ccallable = \<lparr>name = ''f'', sig = sig_f_Int, source = True,
      ccallable = Some (DataType ''ccallable f'' [] False False),
      specializations = [None, Some \<lparr>mi_id = 5, specTypes = sig_f_Int, cache = []\<rparr>],
      unspecialized = None\<rparr>"

definition mod_f :: jl_module where
  "mod_f = \<lparr>mod_id = 8, mod_globals = [], mod_compile = COMPILE_ON,
      mod_mtables = [\<lparr>defs = [f_ccallable]\<rparr>]\<rparr>"

text \<open>
  A method \<open>g\<close> with an abstract signature and three specializations: one whose only
  code instance returns a constant, one with a native entry point behind a
  constant-return entry, one that was inferred but carries an ordinary inlining cost.
\<close>

definition sig_g :: jl_value where
  "sig_g = DataType ''Tuple'' [DataType ''typeof(g)'' [] True False, ty_Integer] False False"

definition mi_const :: jl_method_instance where
  "mi_const = \<lparr>mi_id = 10, specTypes = sig_g,
      cache = [\<lparr>invoke = FPTR_CONST_RETURN, inferred = INFERRED_IR True 0xFFFF, precompile = True\<rparr>]\<rparr>"

definition mi_native :: jl_method_instance where
  "mi_native = \<lparr>mi_id = 11, specTypes = sig_g,
      cache = [\<lparr>invoke = FPTR_CONST_RETURN, inferred = INFERRED_NULL, precompile = False\<rparr>,
               \<lparr>invoke = FPTR_NATIVE 1, inferred = INFERRED_NOTHING, precompile = False\<rparr>]\<rparr>"

definition mi_cheap :: jl_method_instance where
  "mi_cheap = \<lparr>mi_id = 12, specTypes = sig_g,
      cache = [\<lparr>invoke = FPTR_NULL, inferred = INFERRED_IR True 100, precompile = False\<rparr>]\<rparr>"

definition g_method :: jl_method where
  "g_method = \<lparr>name = ''g'', sig = sig_g, source = True, ccallable = None,
      specializations = [Some mi_const, None, Some mi_native, Some mi_cheap],
      unspecialized = None\<rparr>"

text \<open>Signatures for the enumerator.\<close>

definition sig_Int_AB :: jl_value where
  "sig_Int_AB = DataType ''Tuple'' [ty_Int, UnionT ty_A ty_B] False False"

definition sig_AB_Integer_ABC :: jl_value where
  "sig_AB_Integer_ABC =
     DataType ''Tuple'' [UnionT ty_A ty_B, ty_Integer, UnionT ty_A (UnionT ty_B ty_C)] False False"

definition sig_DataType_AB :: jl_value where
  "sig_DataType_AB = DataType ''Tuple'' [ty_DataType, UnionT ty_A ty_B] False False"

definition sig_TypeInt_AB :: jl_value where
  "sig_TypeInt_AB =
     DataType ''Tuple'' [DataType ''Type'' [ty_Int] False False, UnionT ty_A ty_B] False False"

definition sig_A :: jl_value where
  "sig_A = DataType ''Tuple'' [ty_A] True True"

definition sig_Integer :: jl_value where
  "sig_Integer = DataType ''Tuple'' [ty_Integer] False False"

text \<open>
  \<open>Tuple{T} where T<:Union{A, Integer}\<close> and \<open>Tuple{T} where T<:Union{A, B}\<close>.
\<close>

definition tv_A_Integer :: jl_value where
  "tv_A_Integer = TVar ''T'' Bottom (UnionT ty_A ty_Integer)"

definition sig_T_A_Integer :: jl_value where
  "sig_T_A_Integer =
     UnionAll ''T'' Bottom (UnionT ty_A ty_Integer) (DataType ''Tuple'' [tv_A_Integer] False False)"

definition tv_A_B :: jl_value where
  "tv_A_B = TVar ''T'' Bottom (UnionT ty_A ty_B)"

definition sig_T_A_B :: jl_value where
  "sig_T_A_B = UnionAll ''T'' Bottom (UnionT ty_A ty_B) (DataType ''Tuple'' [tv_A_B] False False)"

text \<open>
  A method with the concrete signature \<open>f(::Int)\<close> and one with the abstract signature
  \<open>g(::Integer)\<close>, each with a body and a generic instance.
\<close>

definition f_concrete :: jl_method where
  "f_concrete = \<lparr>name = ''f'', sig = sig_f_Int, source = True, ccallable = None,
      specializations = [],
      unspecialized = Some \<lparr>mi_id = 20, specTypes = sig_f_Int, cache = []\<rparr>\<rparr>"

definition g_abstract :: jl_method where
  "g_abstract = \<lparr>name = ''g'', sig = sig_g, source = True, ccallable = None,
      specializations = [],
      unspecialized = Some \<lparr>mi_id = 21, specTypes = sig_g, cache = []\<rparr>\<rparr>"

text \<open>
  A file system with the single file \<open>a\<close> (three bytes), four dependencies (one of the
  root module, whose id is 0, one with an empty path, one whose file \<open>b\<close> cannot be
  opened, and the file \<open>a\<close>), and a stream of nine bytes positioned at its end.
\<close>

definition sample_fs :: "byte list \<Rightarrow> byte list option" where
  "sample_fs path = (if path = [0x61] then Some [1, 2, 3] else None)"

definition sample_deps :: "dep list" where
  "sample_deps = [(0, [0x61]), (1, []), (1, [0x62]), (1, [0x61])]"

definition sample_stream :: ios where
  "sample_stream = \<lparr>buf = [9, 9, 9, 9, 9, 9, 9, 9, 7], bpos = 9\<rparr>"



text \<open>
  \<open>Tuple{DataType, Union{A, B}, Union{A, B, C}}\<close>: no type variables, and all six
  combinations are concrete.
\<close>

definition sig_DataType_AB_ABC :: jl_value where
  "sig_DataType_AB_ABC =
     DataType ''Tuple'' [ty_DataType, UnionT ty_A ty_B, UnionT ty_A (UnionT ty_B ty_C)]
       False False"

section \<open>The module initialization order\<close>

lemma init_order_loop_order:
  "jl_module_init_order (init_order_loop rt ms st) =
     map_option (\<lambda>a. a @ filter (\<lambda>m. jl_get_global m ''__init__'' \<noteq> None) ms)
       (jl_module_init_order st)"
proof (induction ms arbitrary: st)
  case Nil
  show ?case by (simp add: option.map_ident)
next
  case (Cons m ms)
  show ?case
  proof (cases "jl_get_global m ''__init__''")
    case None
    then show ?thesis using Cons.IH by simp
  next
    case (Some f)
    then show ?thesis
      by (simp add: Cons.IH Let_def option.map_comp comp_def)
  qed
qed

text \<open>
  Claim C10.  When the output pass runs (an output was requested and the global
  initialization order is not \<open>NULL\<close>), the worklist is the old order and the global is
  replaced by a fresh list holding exactly the modules of the old order that bind a
  global named \<open>__init__\<close>, in their original relative order; the others are dropped.
\<close>

theorem init_order_rebuilt:
  assumes "jl_generating_output opts"
    and "jl_module_init_order st = Some worklist"
  shows "fst (jl_write_compiler_output_init rt opts st) = Some worklist \<and>
         jl_module_init_order (snd (jl_write_compiler_output_init rt opts st)) =
           Some (filter (\<lambda>m. jl_get_global m ''__init__'' \<noteq> None) worklist)"
  using assms by (simp add: jl_write_compiler_output_init_def init_order_loop_order)

theorem init_order_rebuilt_witness:
  "jl_module_init_order (snd (jl_write_compiler_output_init sample_rt sample_opts
      \<lparr>jl_module_init_order = Some [mod_with_init 1, mod_without_init 2, mod_with_init 3],
       hinted = [], warnings = []\<rparr>)) = Some [mod_with_init 1, mod_with_init 3]"
proof -
  have g: "jl_generating_output sample_opts"
    by (simp add: jl_generating_output_def sample_opts_def)
  show ?thesis
    using init_order_rebuilt [OF g, of
        "\<lparr>jl_module_init_order = Some [mod_with_init 1, mod_without_init 2, mod_with_init 3],
          hinted = [], warnings = []\<rparr>"
        "[mod_with_init 1, mod_without_init 2, mod_with_init 3]" sample_rt]
    by (simp add: jl_get_global_def mod_with_init_def mod_without_init_def)
qed

section \<open>Incremental selection\<close>

lemma enq_chain_eq:
  "enq_chain cs mi closure = (if \<exists>c\<in>set cs. do_compile c then closure @ [MI mi] else closure)"
  by (induction cs) auto

lemma do_compile_iff:
  "do_compile ci \<longleftrightarrow>
     invoke ci \<noteq> FPTR_CONST_RETURN \<and>
     (inferred ci = INFERRED_IR True 0xFFFF \<or> invoke ci \<noteq> FPTR_NULL \<or> precompile ci)"
  by (cases "inferred ci") (auto simp: do_compile_def UINT16_MAX_def)

lemma enq_specializations_eq:
  "enq_specializations specs closure =
     closure @ map MI (filter (\<lambda>mi. \<exists>c\<in>set (cache mi). do_compile c)
                         (map the (filter (\<lambda>s. s \<noteq> None) specs)))"
proof (induction specs arbitrary: closure)
  case Nil
  show ?case by simp
next
  case (Cons s specs)
  show ?case
    by (cases s) (simp_all add: Cons.IH precompile_enq_specialization'_def enq_chain_eq)
qed

lemma enq_method_extends:
  "\<exists>xs. precompile_enq_all_specializations_' rt m closure = closure @ xs"
  by (simp add: precompile_enq_all_specializations_'_def enq_specializations_eq Let_def
      split: option.split)

lemma fold_keeps:
  assumes "\<And>x c. set c \<subseteq> set (f x c)"
  shows "set c \<subseteq> set (fold f xs c)"
proof (induction xs arbitrary: c)
  case Nil
  show ?case by simp
next
  case (Cons x xs)
  have "set c \<subseteq> set (f x c)" by (rule assms)
  also have "\<dots> \<subseteq> set (fold f xs (f x c))" by (rule Cons.IH)
  finally show ?case by simp
qed

lemma fold_adds:
  assumes keep: "\<And>x c. set c \<subseteq> set (f x c)"
    and mem: "x \<in> set xs"
    and add: "\<And>c. e \<in> set (f x c)"
  shows "e \<in> set (fold f xs c)"
  using mem
proof (induction xs arbitrary: c)
  case Nil
  then show ?case by simp
next
  case (Cons y ys)
  show ?case
  proof (cases "x = y")
    case True
    have "e \<in> set (f y c)" using add True by simp
    then show ?thesis using fold_keeps [of f "f y c" ys, OF keep] by auto
  next
    case False
    then have "x \<in> set ys" using Cons.prems by simp
    then show ?thesis using Cons.IH by simp
  qed
qed

lemma enq_method_keeps: "set c \<subseteq> set (precompile_enq_all_specializations_' rt m c)"
  using enq_method_extends [of rt m c] by auto

lemma enq_mtable_keeps: "set c \<subseteq> set (precompile_enq_all_specializations' rt mt c)"
  unfolding precompile_enq_all_specializations'_def
  by (rule fold_keeps [where f = "precompile_enq_all_specializations_' rt"]) (rule enq_method_keeps)

lemma enq_module_keeps:
  "set c \<subseteq> set (foreach_mtable_in_module md (precompile_enq_all_specializations' rt) c)"
  unfolding foreach_mtable_in_module_def
  by (rule fold_keeps [where f = "precompile_enq_all_specializations' rt"]) (rule enq_mtable_keeps)

lemma jl_precompile'_keeps:
  assumes "MI mi \<in> set items"
    and "Some mi = unspecialized (mi_def_method rt mi) \<or>
         jl_isa_compileable_sig rt (specTypes mi) (mi_def_method rt mi)"
  shows "MI mi \<in> set (jl_precompile' rt items)"
  using assms(1)
proof (induction items)
  case Nil
  then show ?case by simp
next
  case (Cons it items)
  show ?case
  proof (cases it)
    case (MI x)
    show ?thesis
    proof (cases "x = mi")
      case True
      then show ?thesis using MI assms(2) by (auto simp: Let_def)
    next
      case False
      then have "MI mi \<in> set items" using Cons.prems MI by simp
      then show ?thesis using Cons.IH MI by (simp add: Let_def split: option.split)
    qed
  next
    case (SVec a)
    then show ?thesis using Cons by auto
  qed
qed

text \<open>
  Claim C2.  For a scanned method that is not the initializer or foreign-linkage
  special case, the scan pushes, in order and once each, exactly those of its
  specializations (the slots that are not \<open>nothing\<close>) whose code-instance chain has an
  entry that does not dispatch to the constant-return target and that either holds
  inferred code marked inferred with the always-compile inlining cost \<open>0xFFFF\<close>, or has
  a native entry point, or is flagged for precompilation; after them only the
  method's ccallable alias, if it has one.
\<close>

theorem incremental_scan_pushes_iff:
  assumes "\<not> ((name m = ''__init__'' \<or> ccallable m \<noteq> None) \<and> jl_is_dispatch_tupletype (sig m))"
  shows "precompile_enq_all_specializations_' rt m closure =
     closure @
     map MI (filter
       (\<lambda>mi. \<exists>ci\<in>set (cache mi).
          invoke ci \<noteq> FPTR_CONST_RETURN \<and>
          (inferred ci = INFERRED_IR True 0xFFFF \<or> invoke ci \<noteq> FPTR_NULL \<or> precompile ci))
       (map the (filter (\<lambda>s. s \<noteq> None) (specializations m)))) @
     (case ccallable m of None \<Rightarrow> [] | Some alias \<Rightarrow> [SVec alias])"
proof -
  have "enq_specializations (specializations m) closure =
     closure @
     map MI (filter
       (\<lambda>mi. \<exists>ci\<in>set (cache mi).
          invoke ci \<noteq> FPTR_CONST_RETURN \<and>
          (inferred ci = INFERRED_IR True 0xFFFF \<or> invoke ci \<noteq> FPTR_NULL \<or> precompile ci))
       (map the (filter (\<lambda>s. s \<noteq> None) (specializations m))))"
    by (simp add: enq_specializations_eq do_compile_iff)
  then show ?thesis
    using assms
    by (auto simp: precompile_enq_all_specializations_'_def Let_def split: option.split)
qed

theorem incremental_scan_pushes_iff_witness:
  "precompile_enq_all_specializations_' sample_rt g_method [] = [MI mi_native]"
proof -
  have h: "\<not> ((name g_method = ''__init__'' \<or> ccallable g_method \<noteq> None) \<and>
              jl_is_dispatch_tupletype (sig g_method))"
    by (simp add: g_method_def)
  show ?thesis
    using incremental_scan_pushes_iff [OF h, of sample_rt "[]"]
    by (simp add: g_method_def mi_const_def mi_native_def mi_cheap_def)
qed

text \<open>
  Claim C3, as stated, fails: a method named \<open>__init__\<close> whose declared signature is not
  a dispatch tuple type is not forced into the selection.  In the sample module the only
  method is such an \<open>__init__\<close> and nothing at all is selected.
\<close>

theorem init_not_forced_counterexample:
  "name init_abstract = ''__init__'' \<and>
   init_abstract \<in> set (concat (map defs (mod_mtables mod_init_abstract))) \<and>
   worklist_found sample_rt [mod_init_abstract] = [] \<and>
   jl_precompile_worklist sample_rt (Some [mod_init_abstract]) = Some []"
  by (simp add: init_abstract_def mod_init_abstract_def worklist_found_def
      jl_precompile_worklist_def foreach_mtable_in_module_def
      precompile_enq_all_specializations'_def precompile_enq_all_specializations_'_def
      jl_is_dispatch_tupletype_def)

text \<open>
  Claim C3, amended.  For every module of the worklist and every method in its method
  tables that is named \<open>__init__\<close> or is ccallable, and whose declared signature is a
  dispatch tuple type, the specialization of the method for its declared signature is
  among the found instances whatever the caches hold; it is in the array handed to the
  backend when it is the generic instance of its method or its types are a compileable
  signature; and the alias of every ccallable method is in both.
\<close>

theorem init_and_ccallable_forced:
  assumes "md \<in> set worklist" and "mt \<in> set (mod_mtables md)" and "m \<in> set (defs mt)"
    and "name m = ''__init__'' \<or> ccallable m \<noteq> None"
    and "jl_is_dispatch_tupletype (sig m)"
    and "mi = jl_specializations_get_linfo rt m (sig m)"
  shows "MI mi \<in> set (worklist_found rt worklist) \<and>
         (Some mi = unspecialized (mi_def_method rt mi) \<or>
          jl_isa_compileable_sig rt (specTypes mi) (mi_def_method rt mi) \<longrightarrow>
            (\<exists>out. jl_precompile_worklist rt (Some worklist) = Some out \<and> MI mi \<in> set out)) \<and>
         (\<forall>alias. ccallable m = Some alias \<longrightarrow>
            SVec alias \<in> set (worklist_found rt worklist) \<and>
            (\<exists>out. jl_precompile_worklist rt (Some worklist) = Some out \<and> SVec alias \<in> set out))"
proof -
  have m_adds: "MI mi \<in> set (precompile_enq_all_specializations_' rt m c)" for c
    using assms(4,5,6)
    by (auto simp: precompile_enq_all_specializations_'_def Let_def split: option.split)
  have mt_adds: "MI mi \<in> set (precompile_enq_all_specializations' rt mt c)" for c
    unfolding precompile_enq_all_specializations'_def
    by (rule fold_adds [where f = "precompile_enq_all_specializations_' rt" and x = m])
       (rule enq_method_keeps, rule assms(3), rule m_adds)
  have md_adds: "MI mi \<in> set (foreach_mtable_in_module md (precompile_enq_all_specializations' rt) c)" for c
    unfolding foreach_mtable_in_module_def
    by (rule fold_adds [where f = "precompile_enq_all_specializations' rt" and x = mt])
       (rule enq_mtable_keeps, rule assms(2), rule mt_adds)
  have found: "MI mi \<in> set (worklist_found rt worklist)"
    unfolding worklist_found_def
    by (rule fold_adds [where x = md and
          f = "\<lambda>md m. foreach_mtable_in_module md (precompile_enq_all_specializations' rt) m"])
       (rule enq_module_keeps, rule assms(1), rule md_adds)
  have alias_found: "SVec al \<in> set (worklist_found rt worklist)" if a: "ccallable m = Some al" for al
  proof -
    have m_a: "SVec al \<in> set (precompile_enq_all_specializations_' rt m c)" for c
      using a by (simp add: precompile_enq_all_specializations_'_def Let_def)
    have mt_a: "SVec al \<in> set (precompile_enq_all_specializations' rt mt c)" for c
      unfolding precompile_enq_all_specializations'_def
      by (rule fold_adds [where f = "precompile_enq_all_specializations_' rt" and x = m])
         (rule enq_method_keeps, rule assms(3), rule m_a)
    have md_a: "SVec al \<in> set (foreach_mtable_in_module md (precompile_enq_all_specializations' rt) c)" for c
      unfolding foreach_mtable_in_module_def
      by (rule fold_adds [where f = "precompile_enq_all_specializations' rt" and x = mt])
         (rule enq_mtable_keeps, rule assms(2), rule mt_a)
    show ?thesis
      unfolding worklist_found_def
      by (rule fold_adds [where x = md and
            f = "\<lambda>md m. foreach_mtable_in_module md (precompile_enq_all_specializations' rt) m"])
         (rule enq_module_keeps, rule assms(1), rule md_a)
  qed
  have alias_kept: "SVec al \<in> set items \<Longrightarrow> SVec al \<in> set (jl_precompile' rt items)" for al items
    by (induction rt items rule: jl_precompile'.induct) (auto simp: Let_def split: option.split)
  show ?thesis
    using found alias_found alias_kept jl_precompile'_keeps [OF found]
    by (simp add: jl_precompile_worklist_def)
qed

theorem init_and_ccallable_forced_witness:
  "MI \<lparr>mi_id = 0, specTypes = sig_f_Int, cache = []\<rparr> \<in> set (worklist_found sample_rt [mod_f]) \<and>
   (\<exists>out. jl_precompile_worklist sample_rt (Some [mod_f]) = Some out \<and>
      MI \<lparr>mi_id = 0, specTypes = sig_f_Int, cache = []\<rparr> \<in> set out \<and>
      SVec (DataType ''ccallable f'' [] False False) \<in> set out)"
proof -
  have d: "jl_is_dispatch_tupletype (sig f_ccallable)"
    by (simp add: f_ccallable_def sig_f_Int_def jl_is_dispatch_tupletype_def)
  have l: "\<lparr>mi_id = 0, specTypes = sig_f_Int, cache = []\<rparr> =
           jl_specializations_get_linfo sample_rt f_ccallable (sig f_ccallable)"
    by (simp add: sample_rt_def f_ccallable_def)
  have c: "name f_ccallable = ''__init__'' \<or> ccallable f_ccallable \<noteq> None"
    by (simp add: f_ccallable_def)
  have comp: "jl_isa_compileable_sig sample_rt sig_f_Int x" for x
    by (simp add: sample_rt_def sig_f_Int_def jl_is_dispatch_tupletype_def)
  have a: "ccallable f_ccallable = Some (DataType ''ccallable f'' [] False False)"
    by (simp add: f_ccallable_def)
  show ?thesis
    using init_and_ccallable_forced [of mod_f "[mod_f]" "\<lparr>defs = [f_ccallable]\<rparr>" f_ccallable
        "\<lparr>mi_id = 0, specTypes = sig_f_Int, cache = []\<rparr>" sample_rt, OF _ _ _ c d l] comp a
    by (auto simp: mod_f_def)
qed

section \<open>The type-variable splitter\<close>

lemma tvar_try_fate: "tvar_try rt sigbody slots tr = tr @ fate rt sigbody slots"
  by (simp add: tvar_try_def fate_def split: option.split)

lemma count_union_components_pos: "0 < jl_count_union_components v"
  unfolding jl_count_union_components_def
  by (induction v rule: union_components.induct) simp_all

lemma slot_radix_pos: "0 < slot_radix s"
  by (cases s) (simp add: slot_radix_def)

lemma slots_total_pos: "0 < slots_total ss"
  by (induction ss) (simp_all add: slots_total_def slot_radix_pos)

lemma slots_rank_less: "slots_ok ss \<Longrightarrow> slots_rank ss < slots_total ss"
proof (induction ss)
  case Nil
  show ?case by (simp add: slots_total_def)
next
  case (Cons s ss)
  then have d: "slot_digit s < slot_radix s" and r: "slots_rank ss < slots_total ss"
    by (simp_all add: slots_ok_def)
  from r have "Suc (slots_rank ss) \<le> slots_total ss" by simp
  then have "slot_radix s * Suc (slots_rank ss) \<le> slot_radix s * slots_total ss"
    by (rule mult_le_mono2)
  with d show ?case by (simp add: slots_total_def)
qed

lemma getnext_step:
  assumes "slots_ok ss" and "getnext ss = (ss', i)"
  shows "length ss' = length ss \<and> slots_total ss' = slots_total ss \<and> slots_ok ss' \<and>
         i \<le> length ss \<and> (i < length ss \<longrightarrow> slots_rank ss' = Suc (slots_rank ss))"
  using assms
proof (induction ss arbitrary: ss' i)
  case Nil
  then show ?case by (simp add: slots_ok_def)
next
  case (Cons s ss)
  obtain tv v j where s: "s = (tv, v, j)" by (cases s)
  from Cons.prems(1) have ok: "slots_ok ss" and dig: "slot_digit s < slot_radix s"
    by (simp_all add: slots_ok_def)
  obtain rest' k where g: "getnext ss = (rest', k)" by (cases "getnext ss")
  note IH = Cons.IH [OF ok g]
  show ?case
  proof (cases "jl_is_uniontype (tvar_ub tv)")
    case False
    with Cons.prems(2) s g have "ss' = (tv, tv, j) # rest'" and "i = Suc k" by simp_all
    with IH False s show ?thesis
      by (simp add: slots_ok_def slots_total_def slot_radix_def slot_digit_def)
  next
    case True
    show ?thesis
    proof (cases "j = jl_count_union_components (tvar_ub tv)")
      case carry: True
      with Cons.prems(2) s g True have "ss' = (tv, Bottom, 0) # rest'" and "i = Suc k"
        by (simp_all add: Let_def)
      with IH True s carry show ?thesis
        by (simp add: slots_ok_def slots_total_def slot_radix_def slot_digit_def)
    next
      case False
      with Cons.prems(2) s True have "\<exists>ty. ss' = (tv, ty, j + 1) # ss" and "i = 0"
        by (auto simp: Let_def)
      then obtain ty where "ss' = (tv, ty, j + 1) # ss" and "i = 0" by blast
      with True s dig False ok show ?thesis
        by (simp add: slots_ok_def slots_total_def slot_radix_def slot_digit_def)
    qed
  qed
qed

lemma tvar_loop_done: "\<not> i < n \<Longrightarrow> tvar_loop rt b n ss i tr = Some tr"
  by (subst tvar_loop.simps) simp

lemma tvar_loop_run:
  assumes "slots_ok ss" and "length ss = n" and "i < n"
  shows "tvar_loop rt b n ss i tr =
           Some (tr @ concat (map (fate rt b) (tvar_combos (slots_total ss - slots_rank ss) ss)))"
  using assms
proof (induction "slots_total ss - slots_rank ss" arbitrary: ss tr i)
  case 0
  then show ?case using slots_rank_less [of ss] by simp
next
  case (Suc m)
  obtain ss' k where g: "getnext ss = (ss', k)" by (cases "getnext ss")
  note st = getnext_step [OF Suc.prems(1) g]
  have unfold: "tvar_loop rt b n ss i tr = tvar_loop rt b n ss' k (tr @ fate rt b ss)"
    using Suc.prems(3) g by (subst tvar_loop.simps) (simp add: tvar_try_fate)
  show ?case
  proof (cases "k < length ss")
    case False
    then have "tvar_loop rt b n ss' k (tr @ fate rt b ss) = Some (tr @ fate rt b ss)"
      using Suc.prems(2) by (simp add: tvar_loop_done)
    moreover have "tvar_combos (slots_total ss - slots_rank ss) ss = [ss]"
      using Suc.hyps(2) [symmetric] g False by simp
    ultimately show ?thesis using unfold by simp
  next
    case True
    with st have rk: "slots_rank ss' = Suc (slots_rank ss)" and ok': "slots_ok ss'"
      and len': "length ss' = n" and tot: "slots_total ss' = slots_total ss"
      using Suc.prems(2) by simp_all
    have m: "m = slots_total ss' - slots_rank ss'"
      using Suc.hyps(2) rk tot by simp
    have kn: "k < n" using True Suc.prems(2) by simp
    have "tvar_loop rt b n ss' k (tr @ fate rt b ss) =
            Some ((tr @ fate rt b ss) @
                  concat (map (fate rt b) (tvar_combos (slots_total ss' - slots_rank ss') ss')))"
      by (rule Suc.hyps(1) [OF m ok' len' kn])
    moreover have "tvar_combos (slots_total ss - slots_rank ss) ss = ss # tvar_combos m ss'"
      using Suc.hyps(2) [symmetric] g True by simp
    ultimately show ?thesis using unfold m by simp
  qed
qed

lemma tvar_init_ok:
  "tvar_init (jl_subtype_env_size v) v = (ss, b) \<Longrightarrow>
     length ss = jl_subtype_env_size v \<and> slots_ok ss \<and> slots_rank ss = 0"
proof (induction v arbitrary: ss b rule: jl_subtype_env_size.induct)
  case (1 n lb ub body)
  obtain ss0 b0 where t: "tvar_init (jl_subtype_env_size body) body = (ss0, b0)"
    by (cases "tvar_init (jl_subtype_env_size body) body")
  from "1.IH" [OF t] "1.prems" t show ?case
    by (auto simp: slots_ok_def slot_digit_def slot_radix_def)
qed (simp_all add: slots_ok_def)

text \<open>The type-variable splitter always returns, and its trace is determined.\<close>

lemma compile_all_tvar_union_eq:
  "compile_all_tvar_union rt methsig tr =
     Some (tr @ TvarUnion methsig #
           concat (map (fate rt (tvar_sigbody methsig)) (tvar_combinations methsig)))"
proof -
  obtain ss b where t: "tvar_init (jl_subtype_env_size methsig) methsig = (ss, b)"
    by (cases "tvar_init (jl_subtype_env_size methsig) methsig")
  note ok = tvar_init_ok [OF t]
  show ?thesis
  proof (cases "jl_subtype_env_size methsig = 0")
    case True
    then show ?thesis
      using t by (simp add: compile_all_tvar_union_def tvar_combinations_def tvar_loop_done)
  next
    case False
    then have pos: "0 < jl_subtype_env_size methsig" by simp
    have "tvar_loop rt b (jl_subtype_env_size methsig) ss 0 (tr @ [TvarUnion methsig]) =
            Some ((tr @ [TvarUnion methsig]) @
                  concat (map (fate rt b) (tvar_combos (slots_total ss - slots_rank ss) ss)))"
      using ok pos by (intro tvar_loop_run) simp_all
    then show ?thesis
      using t False ok
      by (simp add: compile_all_tvar_union_def tvar_combinations_def tvar_sigbody_def)
  qed
qed

lemma tvar_calls_append: "tvar_calls (xs @ ys) = tvar_calls xs @ tvar_calls ys"
  by (induction xs rule: tvar_calls.induct) simp_all

lemma hints_append: "hints (xs @ ys) = hints xs @ hints ys"
  by (induction xs rule: hints.induct) simp_all

lemma tvar_calls_fates: "tvar_calls (concat (map (fate rt b) cs)) = []"
  by (induction cs) (simp_all add: tvar_calls_append fate_def split: option.split)

section \<open>The union-parameter entry point\<close>

lemma scan_params_count:
  "scan_params tys c = Some k \<Longrightarrow> k = c + length (filter jl_is_uniontype tys)"
  by (induction tys arbitrary: c) (fastforce split: if_splits)+

lemma scan_params_None: "scan_params tys c = None \<longleftrightarrow> (\<exists>ty\<in>set tys. abandons ty)"
  by (induction tys arbitrary: c) (auto simp: abandons_def)

lemma union_pass_no_incr: "union_pass tys ds False = (subst_unions tys ds, ds, False)"
  by (induction tys arbitrary: ds) (auto simp: Let_def split: list.split)

lemma decode_zero: "decode rs 0 = replicate (length rs) 0"
  by (induction rs) simp_all

lemma carry_arith:
  fixes n l P :: nat
  assumes "0 < l" and "n mod l + 1 = l"
  shows "(n + 1) mod (l * P) mod l = 0"
    and "(n + 1) mod (l * P) div l = (n div l + 1) mod P"
    and "n + 1 = l * P \<longleftrightarrow> n div l + 1 = P"
proof -
  have "n + 1 = l * (n div l) + (n mod l + 1)" by simp
  also have "\<dots> = l * (n div l) + l" using assms(2) by simp
  also have "\<dots> = l * (n div l + 1)" by simp
  finally have n: "n + 1 = l * (n div l + 1)" .
  have m: "(n + 1) mod (l * P) = l * ((n div l + 1) mod P)"
    by (subst n) (rule mult_mod_right [symmetric])
  show "(n + 1) mod (l * P) mod l = 0" by (subst m) simp
  show "(n + 1) mod (l * P) div l = (n div l + 1) mod P" using assms(1) by (subst m) simp
  have "l * (n div l + 1) = l * P \<longleftrightarrow> n div l + 1 = P"
    using assms(1) by (simp only: mult_cancel1) simp
  then show "n + 1 = l * P \<longleftrightarrow> n div l + 1 = P" using n by simp
qed

lemma step_arith:
  fixes n l P :: nat
  assumes "0 < l" and "n mod l + 1 \<noteq> l" and "n < l * P"
  shows "(n + 1) mod (l * P) = n + 1"
    and "(n + 1) mod l = n mod l + 1"
    and "(n + 1) div l = n div l"
    and "n + 1 \<noteq> l * P"
proof -
  have "n mod l < l" using assms(1) by simp
  then have lt: "Suc (n mod l) \<noteq> l" using assms(2) by simp
  show m: "(n + 1) mod l = n mod l + 1"
    using lt by (simp add: mod_Suc)
  show ne: "n + 1 \<noteq> l * P"
  proof
    assume "n + 1 = l * P"
    then have "(n + 1) mod l = 0" by simp
    with m show False by simp
  qed
  show "(n + 1) mod (l * P) = n + 1" using ne assms(3) by simp
  show "(n + 1) div l = n div l"
    using lt by (simp add: div_Suc mod_Suc)
qed

lemma union_pass_decode:
  assumes "n < prod_list (union_radices tys)"
  shows "union_pass tys (decode (union_radices tys) n) True =
           (subst_unions tys (decode (union_radices tys) n),
            decode (union_radices tys) ((n + 1) mod prod_list (union_radices tys)),
            n + 1 = prod_list (union_radices tys))"
  using assms
proof (induction tys arbitrary: n)
  case Nil
  then show ?case by (simp add: union_radices_def)
next
  case (Cons ty tys)
  show ?case
  proof (cases "jl_is_uniontype ty")
    case False
    then have r: "union_radices (ty # tys) = union_radices tys"
      by (simp add: union_radices_def)
    show ?thesis using Cons False by (simp add: r)
  next
    case True
    define l where "l = jl_count_union_components ty"
    define P where "P = prod_list (union_radices tys)"
    have r: "union_radices (ty # tys) = l # union_radices tys"
      using True by (simp add: union_radices_def l_def)
    have l0: "0 < l" by (simp add: l_def count_union_components_pos)
    have nlt: "n < l * P" using Cons.prems by (simp add: r P_def)
    have dlt: "n div l < P"
      using nlt l0 by (simp add: less_mult_imp_div_less mult.commute)
    show ?thesis
    proof (cases "n mod l + 1 = l")
      case carry: True
      note IH = Cons.IH [OF dlt [unfolded P_def]]
      show ?thesis
        using True carry IH carry_arith [OF l0 carry, of P]
        by (simp add: r Let_def l_def [symmetric] P_def [symmetric])
    next
      case False
      show ?thesis
        using True False step_arith [OF l0 False nlt]
        by (simp add: r Let_def l_def [symmetric] P_def [symmetric] union_pass_no_incr)
    qed
  qed
qed

lemma prod_union_radices_pos: "0 < prod_list (union_radices tys)"
  by (induction tys) (simp_all add: union_radices_def count_union_components_pos)

text \<open>
  Started at the digits of \<open>n\<close>, the loop hands the combinations \<open>n\<close>, \<open>n + 1\<close>, ... up to
  the last to the type-variable splitter and returns.
\<close>

lemma union_loop_from:
  assumes "n < prod_list (union_radices (parameters (jl_unwrap_unionall sg)))"
  shows "union_loop rt sg (parameters (jl_unwrap_unionall sg))
           (decode (union_radices (parameters (jl_unwrap_unionall sg))) n) tr =
         Some (tr @ concat (map
           (\<lambda>k. let c = combination rt sg
                           (decode (union_radices (parameters (jl_unwrap_unionall sg))) k)
                in TvarUnion c # concat (map (fate rt (tvar_sigbody c)) (tvar_combinations c)))
           [n ..< prod_list (union_radices (parameters (jl_unwrap_unionall sg)))]))"
  using assms
proof (induction "prod_list (union_radices (parameters (jl_unwrap_unionall sg))) - n" arbitrary: n tr)
  case 0
  then show ?case by simp
next
  case (Suc m)
  define tys where "tys = parameters (jl_unwrap_unionall sg)"
  define P where "P = prod_list (union_radices tys)"
  have nP: "n < P" using Suc.prems by (simp add: P_def tys_def)
  have pass: "union_pass tys (decode (union_radices tys) n) True =
      (subst_unions tys (decode (union_radices tys) n),
       decode (union_radices tys) ((n + 1) mod P), n + 1 = P)"
    using union_pass_decode [of n tys] nP by (simp add: P_def)
  define c where "c = combination rt sg (decode (union_radices tys) n)"
  define ev where "ev = TvarUnion c # concat (map (fate rt (tvar_sigbody c)) (tvar_combinations c))"
  have call: "compile_all_tvar_union rt c tr = Some (tr @ ev)"
    by (simp add: compile_all_tvar_union_eq ev_def)
  have up: "[n ..< P] = n # [Suc n ..< P]" using nP by (simp add: upt_conv_Cons)
  show ?case
  proof (cases "n + 1 = P")
    case True
    have "union_loop rt sg tys (decode (union_radices tys) n) tr = Some (tr @ ev)"
      using pass call True
      by (subst union_loop.simps) (simp add: combination_def c_def tys_def)
    then show ?thesis
      using True up by (simp add: tys_def [symmetric] P_def [symmetric] Let_def c_def ev_def)
  next
    case False
    then have lt: "n + 1 < P" using nP by simp
    have m: "m = P - (n + 1)" using Suc.hyps(2) by (simp add: P_def tys_def)
    have "union_loop rt sg tys (decode (union_radices tys) n) tr =
            union_loop rt sg tys (decode (union_radices tys) (n + 1)) (tr @ ev)"
      using pass call False lt
      by (subst union_loop.simps) (simp add: combination_def c_def tys_def)
    also have "\<dots> = Some ((tr @ ev) @ concat (map
           (\<lambda>k. let c = combination rt sg (decode (union_radices tys) k)
                in TvarUnion c # concat (map (fate rt (tvar_sigbody c)) (tvar_combinations c)))
           [n + 1 ..< P]))"
      using Suc.hyps(1) [of "n + 1" "tr @ ev"] m lt by (simp add: tys_def P_def)
    finally show ?thesis
      using up by (simp add: tys_def [symmetric] P_def [symmetric] Let_def c_def ev_def)
  qed
qed

lemma compile_all_union_abandoned:
  "scan_params (parameters (jl_unwrap_unionall sg)) 0 = None \<Longrightarrow>
     compile_all_union rt sg tr = Some tr"
  by (simp add: compile_all_union_def)

lemma compile_all_union_routed:
  "scan_params (parameters (jl_unwrap_unionall sg)) 0 = Some k \<Longrightarrow> k = 0 \<or> 6 \<le> k \<Longrightarrow>
     compile_all_union rt sg tr = compile_all_tvar_union rt sg tr"
  by (auto simp: compile_all_union_def)

lemma length_union_radices: "length (union_radices tys) = length (filter jl_is_uniontype tys)"
  by (simp add: union_radices_def)

lemma compile_all_union_cross:
  assumes "scan_params (parameters (jl_unwrap_unionall sg)) 0 = Some k" and "0 < k" and "k < 6"
  shows "compile_all_union rt sg tr =
         Some (tr @ concat (map
           (\<lambda>n. let c = combination rt sg
                           (decode (union_radices (parameters (jl_unwrap_unionall sg))) n)
                in TvarUnion c # concat (map (fate rt (tvar_sigbody c)) (tvar_combinations c)))
           [0 ..< prod_list (union_radices (parameters (jl_unwrap_unionall sg)))]))"
proof -
  have k: "k = length (union_radices (parameters (jl_unwrap_unionall sg)))"
    using scan_params_count [OF assms(1)] by (simp add: length_union_radices)
  have z: "replicate k 0 = decode (union_radices (parameters (jl_unwrap_unionall sg))) 0"
    by (simp add: k decode_zero)
  have "compile_all_union rt sg tr =
          union_loop rt sg (parameters (jl_unwrap_unionall sg)) (replicate k 0) tr"
    using assms by (simp add: compile_all_union_def)
  then show ?thesis
    unfolding z
    using union_loop_from [of 0 sg rt tr] prod_union_radices_pos by simp
qed

lemma compile_all_union_extends: "\<exists>ev. compile_all_union rt sg tr = Some (tr @ ev)"
proof (cases "scan_params (parameters (jl_unwrap_unionall sg)) 0")
  case None
  then show ?thesis by (simp add: compile_all_union_abandoned)
next
  case (Some k)
  show ?thesis
  proof (cases "k = 0 \<or> 6 \<le> k")
    case True
    then show ?thesis
      using compile_all_union_routed [OF Some True] by (simp add: compile_all_tvar_union_eq)
  next
    case False
    then have "0 < k" and "k < 6" by simp_all
    from compile_all_union_cross [OF Some this] show ?thesis by simp
  qed
qed

lemma hints_fates:
  "set (hints (concat (map (fate rt b) cs))) \<subseteq>
     {s. jl_has_concrete_subtype rt s \<and> jl_is_concrete_type s}"
  by (induction cs) (auto simp: hints_append fate_def split: option.splits if_splits)

lemma tvar_calls_concat_combos:
  "tvar_calls (concat (map (\<lambda>n. TvarUnion (f n) # concat (map (fate rt (g n)) (h n))) ns)) =
     map f ns"
  by (induction ns) (simp_all add: tvar_calls_append tvar_calls_fates)

lemma hints_concat_combos:
  "set (hints (concat (map (\<lambda>n. TvarUnion (f n) # concat (map (fate rt (g n)) (h n))) ns))) \<subseteq>
     {s. jl_has_concrete_subtype rt s \<and> jl_is_concrete_type s}"
proof (induction ns)
  case Nil
  show ?case by simp
next
  case (Cons n ns)
  then show ?case using hints_fates [of rt "g n" "h n"] by (auto simp: hints_append)
qed

lemma decode_in_range:
  "\<forall>r\<in>set rs. 0 < r \<Longrightarrow> list_all2 (\<lambda>d r. d < r) (decode rs n) rs"
  by (induction rs arbitrary: n) simp_all

lemma union_radices_pos: "\<forall>r\<in>set (union_radices tys). 0 < r"
  by (auto simp: union_radices_def count_union_components_pos)

lemma decode_inj:
  assumes "\<forall>r\<in>set rs. 0 < r" and "n < prod_list rs" and "m < prod_list rs"
    and "decode rs n = decode rs m"
  shows "n = m"
  using assms
proof (induction rs arbitrary: n m)
  case Nil
  then show ?case by simp
next
  case (Cons r rs)
  then have r: "0 < r" by simp
  have "n div r < prod_list rs" "m div r < prod_list rs"
    using Cons.prems(2,3) r by (simp_all add: less_mult_imp_div_less mult.commute)
  moreover have "decode rs (n div r) = decode rs (m div r)" and md: "n mod r = m mod r"
    using Cons.prems(4) by simp_all
  ultimately have "n div r = m div r" using Cons.IH Cons.prems(1) by simp
  with md show ?case by (metis div_mult_mod_eq)
qed

lemma decode_distinct:
  assumes "\<forall>r\<in>set rs. 0 < r"
  shows "distinct (map (decode rs) [0 ..< prod_list rs])"
proof -
  have "inj_on (decode rs) (set [0 ..< prod_list rs])"
    by (rule inj_onI) (use assms decode_inj in auto)
  then show ?thesis by (simp add: distinct_map)
qed

text \<open>
  With in-range digits, one for each union parameter, the substituted parameter list
  has one alternative in the place of each union and every other parameter unchanged.
\<close>

lemma subst_unions_shape:
  assumes "list_all2 (\<lambda>d r. d < r) ds (union_radices tys)"
  shows "list_all2 (\<lambda>ty p. if jl_is_uniontype ty then p \<in> set (union_components ty) else p = ty)
           tys (subst_unions tys ds)"
  using assms
proof (induction tys arbitrary: ds)
  case Nil
  show ?case by simp
next
  case (Cons ty tys)
  show ?case
  proof (cases "jl_is_uniontype ty")
    case False
    then show ?thesis using Cons by (simp add: union_radices_def)
  next
    case True
    with Cons.prems obtain d rest where ds: "ds = d # rest"
      and d: "d < jl_count_union_components ty"
      and rest: "list_all2 (\<lambda>d r. d < r) rest (union_radices tys)"
      by (auto simp: union_radices_def list_all2_Cons2)
    from d have "jl_nth_union_component ty d \<in> set (union_components ty)"
      by (simp add: jl_nth_union_component_def jl_count_union_components_def)
    then show ?thesis using True ds Cons.IH [OF rest] by simp
  qed
qed

section \<open>Claims about the enumerator\<close>

text \<open>
  For a signature whose parameters the scan accepts and that has between one and five
  union parameters, with alternative counts \<open>rs\<close>, the union-parameter entry point
  returns, and it hands to the type-variable splitter exactly \<open>prod_list rs\<close>
  signatures: the \<open>n\<close>-th is built from the mixed-radix digits of \<open>n\<close> (least
  significant digit first, one digit for each union parameter), the digit vectors are
  pairwise distinct, each signature has one alternative of the union in the place of
  each union parameter and every other parameter unchanged, and whatever is hinted is a
  concrete type with a concrete subtype.
\<close>

lemma union_cross_product:
  assumes "params = parameters (jl_unwrap_unionall sg)"
    and "rs = union_radices params"
    and "scan_params params 0 = Some k" and "1 \<le> k" and "k \<le> 5"
  shows "\<exists>tr'. compile_all_union rt sg tr = Some tr' \<and>
           tvar_calls tr' =
             tvar_calls tr @ map (\<lambda>n. combination rt sg (decode rs n)) [0 ..< prod_list rs] \<and>
           length (tvar_calls tr') = length (tvar_calls tr) + prod_list rs \<and>
           length rs = k \<and>
           distinct (map (decode rs) [0 ..< prod_list rs]) \<and>
           (\<forall>n < prod_list rs.
              list_all2 (\<lambda>ty p. if jl_is_uniontype ty then p \<in> set (union_components ty) else p = ty)
                params (subst_unions params (decode rs n))) \<and>
           set (hints tr') \<subseteq>
             set (hints tr) \<union> {s. jl_has_concrete_subtype rt s \<and> jl_is_concrete_type s}"
proof -
  have scan: "scan_params (parameters (jl_unwrap_unionall sg)) 0 = Some k"
    using assms(1,3) by simp
  have k: "0 < k" "k < 6" using assms(4,5) by simp_all
  define ev where "ev = concat (map
           (\<lambda>n. TvarUnion (combination rt sg (decode rs n)) #
                 concat (map (fate rt (tvar_sigbody (combination rt sg (decode rs n))))
                           (tvar_combinations (combination rt sg (decode rs n)))))
           [0 ..< prod_list rs])"
  have res: "compile_all_union rt sg tr = Some (tr @ ev)"
    using compile_all_union_cross [OF scan k, of rt tr]
    by (simp add: ev_def assms(1,2) Let_def)
  have calls: "tvar_calls ev = map (\<lambda>n. combination rt sg (decode rs n)) [0 ..< prod_list rs]"
    unfolding ev_def by (rule tvar_calls_concat_combos)
  have hs: "set (hints ev) \<subseteq> {s. jl_has_concrete_subtype rt s \<and> jl_is_concrete_type s}"
    unfolding ev_def by (rule hints_concat_combos)
  have len: "length rs = k"
    using scan_params_count [OF assms(3)] by (simp add: assms(2) length_union_radices)
  have pos: "\<forall>r\<in>set rs. 0 < r"
    unfolding assms(2) by (rule union_radices_pos)
  have shape: "list_all2 (\<lambda>ty p. if jl_is_uniontype ty then p \<in> set (union_components ty) else p = ty)
                params (subst_unions params (decode rs n))" for n
    using subst_unions_shape [of "decode rs n" params] decode_in_range [OF pos, of n]
    by (simp add: assms(2))
  show ?thesis
    using res calls hs len shape decode_distinct [OF pos]
    by (auto simp: tvar_calls_append hints_append)
qed

lemma rewrap_no_typevars: "jl_subtype_env_size sg = 0 \<Longrightarrow> jl_rewrap_unionall t sg = t"
  by (cases sg) simp_all

lemma tvar_combinations_no_typevars:
  "jl_subtype_env_size c = 0 \<Longrightarrow> tvar_combinations c = []"
  by (simp add: tvar_combinations_def)

lemma hints_calls_only:
  "hints (map (\<lambda>n. TvarUnion (f n)) ns) = []"
  by (induction ns) simp_all

text \<open>
  Claim C1.  On a signature without type variables the code does the first half of
  what the claim says and misses the second.  When the scan accepts the parameters
  and there are between one and five union parameters, with alternative counts \<open>rs\<close>,
  the union-parameter entry point counts through the mixed-radix digit vectors and hands
  exactly \<open>prod_list rs\<close> pairwise distinct combinations to the type-variable splitter,
  each with one alternative in the place of each union parameter and every other
  parameter unchanged.  But no combination is hinted, leaf signature or not: for a
  signature without type variables the splitter has \<open>tvarslen = 0\<close>, the loop of line
  207 that holds the only call of \<open>jl_compile_hint\<close> never runs, and the hints of the
  trace are the same after the enumeration as before.  (The tuple constructor is taken
  to return a tuple type, not a \<open>UnionAll\<close>.)
\<close>

theorem union_split_hints_nothing:
  assumes "params = parameters (jl_unwrap_unionall sg)"
    and "rs = union_radices params"
    and "scan_params params 0 = Some k" and "1 \<le> k" and "k \<le> 5"
    and "jl_subtype_env_size sg = 0"
    and "\<forall>p. jl_subtype_env_size (jl_apply_tuple_type rt p) = 0"
  shows "\<exists>tr'. compile_all_union rt sg tr = Some tr' \<and>
           tvar_calls tr' =
             tvar_calls tr @ map (\<lambda>n. combination rt sg (decode rs n)) [0 ..< prod_list rs] \<and>
           length (tvar_calls tr') = length (tvar_calls tr) + prod_list rs \<and>
           distinct (map (decode rs) [0 ..< prod_list rs]) \<and>
           (\<forall>n < prod_list rs.
              list_all2 (\<lambda>ty p. if jl_is_uniontype ty then p \<in> set (union_components ty) else p = ty)
                params (subst_unions params (decode rs n))) \<and>
           hints tr' = hints tr"
proof -
  have scan: "scan_params (parameters (jl_unwrap_unionall sg)) 0 = Some k"
    using assms(1,3) by simp
  have k: "0 < k" "k < 6" using assms(4,5) by simp_all
  have nc: "tvar_combinations (combination rt sg ds) = []" for ds
    by (rule tvar_combinations_no_typevars)
       (simp add: combination_def rewrap_no_typevars [OF assms(6)] assms(7))
  have res: "compile_all_union rt sg tr =
      Some (tr @ concat (map (\<lambda>n. [TvarUnion (combination rt sg (decode rs n))])
                           [0 ..< prod_list rs]))"
    using compile_all_union_cross [OF scan k, of rt tr]
    by (simp add: assms(1,2) Let_def nc)
  have h: "hints (tr @ concat (map (\<lambda>n. [TvarUnion (combination rt sg (decode rs n))])
                           [0 ..< prod_list rs])) = hints tr"
    by (simp add: hints_append hints_calls_only)
  from union_cross_product [OF assms(1,2,3,4,5), of rt tr] obtain tr' where
    r: "compile_all_union rt sg tr = Some tr'"
    and c: "tvar_calls tr' =
             tvar_calls tr @ map (\<lambda>n. combination rt sg (decode rs n)) [0 ..< prod_list rs]"
    and l: "length (tvar_calls tr') = length (tvar_calls tr) + prod_list rs"
    and d: "distinct (map (decode rs) [0 ..< prod_list rs])"
    and s: "\<forall>n < prod_list rs.
              list_all2 (\<lambda>ty p. if jl_is_uniontype ty then p \<in> set (union_components ty) else p = ty)
                params (subst_unions params (decode rs n))"
    by blast
  from r res h have "hints tr' = hints tr" by simp
  with r c l d s show ?thesis by blast
qed

theorem union_split_hints_nothing_witness:
  "length (tvar_calls (the (compile_all_union sample_rt sig_DataType_AB_ABC []))) = 6 \<and>
   hints (the (compile_all_union sample_rt sig_DataType_AB_ABC [])) = [] \<and>
   list_all (\<lambda>c. jl_is_concrete_type c \<and> jl_has_concrete_subtype sample_rt c \<and>
                  jl_instantiate_type_with sample_rt c [] = Some c)
     (tvar_calls (the (compile_all_union sample_rt sig_DataType_AB_ABC [])))"
proof -
  have p: "[ty_DataType, UnionT ty_A ty_B, UnionT ty_A (UnionT ty_B ty_C)] =
           parameters (jl_unwrap_unionall sig_DataType_AB_ABC)"
    by (simp add: sig_DataType_AB_ABC_def)
  have r: "[2, 3] = union_radices [ty_DataType, UnionT ty_A ty_B, UnionT ty_A (UnionT ty_B ty_C)]"
    by (simp add: union_radices_def jl_count_union_components_def ty_DataType_def ty_A_def
        ty_B_def ty_C_def)
  have s: "scan_params [ty_DataType, UnionT ty_A ty_B, UnionT ty_A (UnionT ty_B ty_C)] 0 = Some 2"
    by (simp add: ty_DataType_def ty_A_def ty_B_def ty_C_def jl_has_free_typevars_def
        jl_type_typename_def jl_is_kind_def)
  have z: "jl_subtype_env_size sig_DataType_AB_ABC = 0"
    by (simp add: sig_DataType_AB_ABC_def)
  have a: "\<forall>p. jl_subtype_env_size (jl_apply_tuple_type sample_rt p) = 0"
    by (simp add: sample_rt_def)
  from union_split_hints_nothing [OF p r s _ _ z a, of "[]"] obtain tr' where
    t: "compile_all_union sample_rt sig_DataType_AB_ABC [] = Some tr'"
    and l: "length (tvar_calls tr') = length (tvar_calls []) + prod_list [2, 3]"
    and h: "hints tr' = hints []"
    by auto
  have c1: "length (tvar_calls (the (compile_all_union sample_rt sig_DataType_AB_ABC []))) = 6"
    using l by (simp add: t)
  have c2: "hints (the (compile_all_union sample_rt sig_DataType_AB_ABC [])) = []"
    using h by (simp add: t)
  have c3: "list_all (\<lambda>c. jl_is_concrete_type c \<and> jl_has_concrete_subtype sample_rt c \<and>
                  jl_instantiate_type_with sample_rt c [] = Some c)
     (tvar_calls (the (compile_all_union sample_rt sig_DataType_AB_ABC [])))"
    by code_simp
  from c1 c2 c3 show ?thesis by blast
qed

text \<open>
  Claim C7, as stated, fails for a kind type: \<open>DataType\<close> is a concrete type and a kind,
  and the signature \<open>Tuple{DataType, Union{A, B}}\<close> is not abandoned; both combinations
  are handed to the type-variable splitter.
\<close>

theorem kind_parameter_counterexample:
  "jl_is_kind ty_DataType \<and> jl_is_concrete_type ty_DataType \<and>
   compile_all_union sample_rt sig_DataType_AB [] =
     Some [TvarUnion (DataType ''Tuple'' [ty_DataType, ty_A] True True),
           TvarUnion (DataType ''Tuple'' [ty_DataType, ty_B] True True)]"
  by code_simp

text \<open>
  Claim C7, amended.  If any parameter of the signature is a datatype without free type
  variables that is either concrete and not a kind type, or a \<open>Type{}\<close> type, the
  signature is abandoned at once: the enumerator returns with the trace unchanged, so
  no combination was enumerated, the type-variable splitter was not invoked and nothing
  was hinted.
\<close>

theorem signature_abandoned:
  assumes "ty \<in> set (parameters (jl_unwrap_unionall sg))"
    and "jl_is_datatype ty" and "\<not> jl_has_free_typevars ty"
    and "(\<not> jl_is_kind ty \<and> isconcretetype ty) \<or> dt_name ty = jl_type_typename"
  shows "compile_all_union rt sg tr = Some tr"
proof -
  have "\<not> jl_is_uniontype ty" using assms(2) by (cases ty) simp_all
  then have "abandons ty" using assms(2,3,4) by (simp add: abandons_def)
  then have "scan_params (parameters (jl_unwrap_unionall sg)) 0 = None"
    using assms(1) scan_params_None by blast
  then show ?thesis by (rule compile_all_union_abandoned)
qed

theorem signature_abandoned_witness:
  "compile_all_union sample_rt sig_TypeInt_AB [] = Some []"
proof -
  have a: "DataType ''Type'' [ty_Int] False False \<in> set (parameters (jl_unwrap_unionall sig_TypeInt_AB))"
    by (simp add: sig_TypeInt_AB_def)
  have b: "\<not> jl_has_free_typevars (DataType ''Type'' [ty_Int] False False)"
    by (simp add: jl_has_free_typevars_def ty_Int_def)
  show ?thesis
    by (rule signature_abandoned [OF a _ b]) (simp_all add: jl_type_typename_def)
qed

text \<open>
  Claim C8, as stated, fails for a signature that the scan abandons: \<open>Tuple{A}\<close> has no
  union parameter and no type variable, and it is not routed to the type-variable
  splitter; the enumerator returns without calling it.
\<close>

theorem not_routed_counterexample:
  "union_radices (parameters (jl_unwrap_unionall sig_A)) = [] \<and>
   jl_subtype_env_size sig_A = 0 \<and>
   compile_all_union sample_rt sig_A [] = Some []"
  by code_simp

text \<open>
  Claim C8, amended.  A signature whose parameters the scan accepts and that has no
  union parameter, or six or more, is routed directly to the type-variable splitter:
  the enumerator does what one call of the splitter on the signature itself does, and
  that is the only call.  With between one and five union parameters the splitter is
  called once for every element of the cross product of the alternatives.
\<close>

theorem union_routing:
  assumes "params = parameters (jl_unwrap_unionall sg)"
    and "rs = union_radices params"
    and "scan_params params 0 = Some k"
  shows "(k = 0 \<or> 6 \<le> k \<longrightarrow>
            compile_all_union rt sg tr = compile_all_tvar_union rt sg tr \<and>
            (\<exists>tr'. compile_all_union rt sg tr = Some tr' \<and>
                   tvar_calls tr' = tvar_calls tr @ [sg])) \<and>
         (1 \<le> k \<and> k \<le> 5 \<longrightarrow>
            (\<exists>tr'. compile_all_union rt sg tr = Some tr' \<and>
                   tvar_calls tr' =
                     tvar_calls tr @
                     map (\<lambda>n. combination rt sg (decode rs n)) [0 ..< prod_list rs]))"
proof (intro conjI impI)
  assume r: "k = 0 \<or> 6 \<le> k"
  have scan: "scan_params (parameters (jl_unwrap_unionall sg)) 0 = Some k"
    using assms(1,3) by simp
  show eq: "compile_all_union rt sg tr = compile_all_tvar_union rt sg tr"
    by (rule compile_all_union_routed [OF scan r])
  show "\<exists>tr'. compile_all_union rt sg tr = Some tr' \<and> tvar_calls tr' = tvar_calls tr @ [sg]"
    unfolding eq compile_all_tvar_union_eq
    by (simp add: tvar_calls_append tvar_calls_fates)
next
  assume "1 \<le> k \<and> k \<le> 5"
  then have k: "0 < k" "k < 6" by simp_all
  have scan: "scan_params (parameters (jl_unwrap_unionall sg)) 0 = Some k"
    using assms(1,3) by simp
  have "tvar_calls (concat (map
           (\<lambda>n. TvarUnion (combination rt sg (decode rs n)) #
                 concat (map (fate rt (tvar_sigbody (combination rt sg (decode rs n))))
                           (tvar_combinations (combination rt sg (decode rs n)))))
           [0 ..< prod_list rs])) =
        map (\<lambda>n. combination rt sg (decode rs n)) [0 ..< prod_list rs]"
    by (rule tvar_calls_concat_combos)
  then show "\<exists>tr'. compile_all_union rt sg tr = Some tr' \<and>
      tvar_calls tr' = tvar_calls tr @ map (\<lambda>n. combination rt sg (decode rs n)) [0 ..< prod_list rs]"
    using compile_all_union_cross [OF scan k, of rt tr]
    by (simp add: assms(1,2) Let_def tvar_calls_append)
qed

theorem union_routing_witness:
  "compile_all_union sample_rt sig_Integer [] = compile_all_tvar_union sample_rt sig_Integer [] \<and>
   tvar_calls (the (compile_all_union sample_rt sig_Integer [])) = [sig_Integer]"
proof -
  have p: "[ty_Integer] = parameters (jl_unwrap_unionall sig_Integer)"
    by (simp add: sig_Integer_def)
  have s: "scan_params [ty_Integer] 0 = Some 0"
    by (simp add: ty_Integer_def jl_type_typename_def)
  have c: "(0::nat) = 0 \<or> 6 \<le> (0::nat)" by simp
  note r = mp [OF conjunct1 [OF union_routing [OF p refl s, of sample_rt "[]"]] c]
  have a: "compile_all_union sample_rt sig_Integer [] = compile_all_tvar_union sample_rt sig_Integer []"
    by (rule conjunct1 [OF r])
  from conjunct2 [OF r] obtain tr' where t: "compile_all_union sample_rt sig_Integer [] = Some tr'"
    and u: "tvar_calls tr' = tvar_calls [] @ [sig_Integer]" by blast
  have "tvar_calls (the (compile_all_union sample_rt sig_Integer [])) = [sig_Integer]"
    by (simp add: t u)
  with a show ?thesis by (rule conjI)
qed

text \<open>
  Claim C9, as stated, fails: with \<open>T<:Union{A, Integer}\<close> the enumerator produces the
  binding of \<open>T\<close> to a variable below \<open>Integer\<close>; the instantiated signature
  \<open>Tuple{T}\<close> has a concrete subtype but is not a concrete type, and it is not hinted:
  the only hint is for \<open>Tuple{A}\<close>.
\<close>

theorem abstract_combination_counterexample:
  "[(tv_A_Integer, TVar ''T'' Bottom ty_Integer, 2)] \<in> set (tvar_combinations sig_T_A_Integer) \<and>
   jl_instantiate_type_with sample_rt (tvar_sigbody sig_T_A_Integer)
       (slots_env [(tv_A_Integer, TVar ''T'' Bottom ty_Integer, 2)]) =
     Some (DataType ''Tuple'' [TVar ''T'' Bottom ty_Integer] False False) \<and>
   jl_has_concrete_subtype sample_rt (DataType ''Tuple'' [TVar ''T'' Bottom ty_Integer] False False) \<and>
   compile_all_tvar_union sample_rt sig_T_A_Integer [] =
     Some [TvarUnion sig_T_A_Integer, Hint (DataType ''Tuple'' [ty_A] True True)]"
  by code_simp

text \<open>
  Claim C9, amended.  The type-variable splitter always returns, whatever the type
  system does, and for every combination it produces, in order: if substituting the
  chosen types raises, the combination is skipped; if the instantiated signature has no
  concrete subtype it is discarded; if it has one but is not itself a concrete type it
  is discarded as well; otherwise it is hinted.  Nothing else is hinted.
\<close>

theorem tvar_splitter_fates:
  "compile_all_tvar_union rt methsig tr =
     Some (tr @ TvarUnion methsig #
           concat (map
             (\<lambda>slots.
                case jl_instantiate_type_with rt (tvar_sigbody methsig) (slots_env slots) of
                  None \<Rightarrow> []
                | Some s \<Rightarrow>
                    if jl_has_concrete_subtype rt s \<and> jl_is_concrete_type s then [Hint s] else [])
             (tvar_combinations methsig)))"
proof -
  have "fate rt (tvar_sigbody methsig) =
          (\<lambda>slots.
             case jl_instantiate_type_with rt (tvar_sigbody methsig) (slots_env slots) of
               None \<Rightarrow> []
             | Some s \<Rightarrow>
                 if jl_has_concrete_subtype rt s \<and> jl_is_concrete_type s then [Hint s] else [])"
    by (rule ext) (simp add: fate_def)
  then show ?thesis using compile_all_tvar_union_eq [of rt methsig tr] by simp
qed

theorem tvar_splitter_fates_witness:
  "compile_all_tvar_union sample_rt sig_T_A_B [] =
     Some [TvarUnion sig_T_A_B, Hint (DataType ''Tuple'' [ty_A] True True),
           Hint (DataType ''Tuple'' [ty_B] True True)]"
  unfolding tvar_splitter_fates by code_simp

section \<open>Full-sweep selection\<close>

lemma collect_methods_list:
  "fold compile_all_collect_' ms acc = acc @ filter source ms"
  by (induction ms arbitrary: acc) (simp_all add: compile_all_collect_'_def)

lemma collect_tables_list:
  "fold compile_all_collect' reachable acc = acc @ filter source (concat (map defs reachable))"
  by (induction reachable arbitrary: acc)
     (simp_all add: compile_all_collect'_def collect_methods_list)

lemma compile_all_defs_loop_result:
  "\<exists>tr'. compile_all_defs_loop rt ms (tr, mis) =
           Some (tr', mis @ concat (map
             (\<lambda>m. if jl_isa_compileable_sig rt (sig m) m then []
                  else case jl_get_unspecialized rt m of
                         None \<Rightarrow> []
                       | Some unspec \<Rightarrow> [MI unspec]) ms)) \<and>
         set tr \<subseteq> set tr' \<and>
         (\<forall>m\<in>set ms. jl_isa_compileable_sig rt (sig m) m \<longrightarrow> Hint (sig m) \<in> set tr')"
proof (induction ms arbitrary: tr mis)
  case Nil
  show ?case by simp
next
  case (Cons m ms)
  define fb where "fb = (\<lambda>m. if jl_isa_compileable_sig rt (sig m) m then []
                  else case jl_get_unspecialized rt m of
                         None \<Rightarrow> []
                       | Some unspec \<Rightarrow> [MI unspec])"
  show ?case
  proof (cases "jl_isa_compileable_sig rt (sig m) m")
    case True
    from Cons.IH [of "tr @ [Hint (sig m)]" mis] obtain tr' where
      r: "compile_all_defs_loop rt ms (tr @ [Hint (sig m)], mis) =
            Some (tr', mis @ concat (map fb ms))"
      and s: "set (tr @ [Hint (sig m)]) \<subseteq> set tr'"
      and a: "\<forall>m\<in>set ms. jl_isa_compileable_sig rt (sig m) m \<longrightarrow> Hint (sig m) \<in> set tr'"
      unfolding fb_def by blast
    have "compile_all_defs_loop rt (m # ms) (tr, mis) =
            Some (tr', mis @ concat (map fb (m # ms)))"
      using True r by (simp add: fb_def)
    then show ?thesis using s a True unfolding fb_def by auto
  next
    case False
    obtain ev where u: "compile_all_union rt (sig m) tr = Some (tr @ ev)"
      using compile_all_union_extends by blast
    define mis1 where "mis1 = (case jl_get_unspecialized rt m of
                       None \<Rightarrow> mis | Some unspec \<Rightarrow> mis @ [MI unspec])"
    have m1: "mis1 = mis @ fb m"
      using False by (simp add: mis1_def fb_def split: option.split)
    from Cons.IH [of "tr @ ev" mis1] obtain tr' where
      r: "compile_all_defs_loop rt ms (tr @ ev, mis1) =
            Some (tr', mis1 @ concat (map fb ms))"
      and s: "set (tr @ ev) \<subseteq> set tr'"
      and a: "\<forall>m\<in>set ms. jl_isa_compileable_sig rt (sig m) m \<longrightarrow> Hint (sig m) \<in> set tr'"
      unfolding fb_def by blast
    have "compile_all_defs_loop rt (m # ms) (tr, mis) =
            Some (tr', mis @ concat (map fb (m # ms)))"
      using False r u by (simp add: mis1_def [symmetric] m1)
    then show ?thesis using s a False unfolding fb_def by auto
  qed
qed

text \<open>
  Claim C6, as stated, fails: a method with a body whose declared signature is itself
  compileable (here \<open>f(::Int)\<close>) is only hinted; its generic instance is not added to
  the compile set, which stays empty.
\<close>

theorem no_fallback_counterexample:
  "source f_concrete \<and>
   jl_get_unspecialized sample_rt f_concrete =
     Some \<lparr>mi_id = 20, specTypes = sig_f_Int, cache = []\<rparr> \<and>
   jl_compile_all_defs sample_rt [\<lparr>defs = [f_concrete]\<rparr>] ([], []) =
     Some ([Hint sig_f_Int], [])"
  by code_simp

text \<open>
  Claim C6, amended.  The full sweep over the reachable method tables returns, and what
  it adds to the compile set is exactly, in visiting order, one entry for every visited
  method with a generic body whose declared signature is not a compileable signature:
  the generic instance that \<open>jl_get_unspecialized\<close> yields for it (nothing when it
  yields none).  A visited method whose declared signature is compileable adds nothing
  to the compile set; its signature is hinted.
\<close>

theorem full_sweep_fallback:
  assumes "visited = filter source (concat (map defs reachable))"
  shows "\<exists>tr'. jl_compile_all_defs rt reachable (tr, mis) =
           Some (tr', mis @ concat (map
             (\<lambda>m. if jl_isa_compileable_sig rt (sig m) m then []
                  else case jl_get_unspecialized rt m of
                         None \<Rightarrow> []
                       | Some unspec \<Rightarrow> [MI unspec]) visited)) \<and>
         (\<forall>m\<in>set visited. jl_isa_compileable_sig rt (sig m) m \<longrightarrow> Hint (sig m) \<in> set tr')"
  using compile_all_defs_loop_result [of rt visited tr mis]
  unfolding jl_compile_all_defs_def assms
  by (simp add: collect_tables_list) blast

theorem full_sweep_fallback_witness:
  "snd (the (jl_compile_all_defs sample_rt [\<lparr>defs = [f_concrete, g_abstract]\<rparr>] ([], []))) =
     [MI \<lparr>mi_id = 21, specTypes = sig_g, cache = []\<rparr>]"
proof -
  have v: "[f_concrete, g_abstract] =
             filter source (concat (map defs [\<lparr>defs = [f_concrete, g_abstract]\<rparr>]))"
    by (simp add: f_concrete_def g_abstract_def)
  have e: "concat (map
             (\<lambda>m. if jl_isa_compileable_sig sample_rt (sig m) m then []
                  else case jl_get_unspecialized sample_rt m of
                         None \<Rightarrow> []
                       | Some unspec \<Rightarrow> [MI unspec]) [f_concrete, g_abstract]) =
           [MI \<lparr>mi_id = 21, specTypes = sig_g, cache = []\<rparr>]"
    by (simp add: sample_rt_def f_concrete_def g_abstract_def sig_f_Int_def sig_g_def
        jl_is_dispatch_tupletype_def)
  from full_sweep_fallback [OF v, of sample_rt "[]" "[]"] obtain tr' where
    "jl_compile_all_defs sample_rt [\<lparr>defs = [f_concrete, g_abstract]\<rparr>] ([], []) =
       Some (tr', [] @ concat (map
             (\<lambda>m. if jl_isa_compileable_sig sample_rt (sig m) m then []
                  else case jl_get_unspecialized sample_rt m of
                         None \<Rightarrow> []
                       | Some unspec \<Rightarrow> [MI unspec]) [f_concrete, g_abstract]))"
    by blast
  then show ?thesis by (simp only: e option.sel snd_conv append_Nil)
qed

section \<open>The source-text block\<close>

lemma length_le_bytes: "length (le_bytes k v) = k"
  by (induction k arbitrary: v) simp_all

lemma le_nat_le_bytes: "v < 256 ^ k \<Longrightarrow> le_nat (le_bytes k v) = v"
proof (induction k arbitrary: v)
  case 0
  then show ?case by simp
next
  case (Suc k)
  then have "v div 256 < 256 ^ k"
    by (simp add: less_mult_imp_div_less mult.commute)
  then have "le_nat (le_bytes k (v div 256)) = v div 256" by (rule Suc.IH)
  moreover have "unat (of_nat (v mod 256) :: byte) = v mod 256"
    by (simp add: unat_of_nat)
  ultimately show ?case by simp
qed

lemma le_bytes_mod: "le_bytes k (v mod 256 ^ k) = le_bytes k v"
proof (induction k arbitrary: v)
  case 0
  show ?case by simp
next
  case (Suc k)
  have a: "v mod (256 * 256 ^ k) mod 256 = v mod 256"
    by (simp add: mod_mod_cancel)
  have b: "v mod (256 * 256 ^ k) div 256 = v div 256 mod 256 ^ k"
    by (simp add: mod_mult2_eq)
  show ?case by (simp add: a b Suc.IH)
qed

lemma le_bytes_4_word: "le_bytes 4 (unat (of_nat n :: 32 word)) = le_bytes 4 n"
proof -
  have "unat (of_nat n :: 32 word) = n mod 256 ^ 4" by (simp add: unat_of_nat)
  then show ?thesis by (simp only: le_bytes_mod)
qed

lemma le_bytes_8_word: "le_bytes 8 (unat (of_nat n :: 64 word)) = le_bytes 8 n"
proof -
  have "unat (of_nat n :: 64 word) = n mod 256 ^ 8" by (simp add: unat_of_nat)
  then show ?thesis by (simp only: le_bytes_mod)
qed

lemma ios_write_at_end:
  "bpos s = length (buf s) \<Longrightarrow>
     buf (ios_write s d) = buf s @ d \<and> bpos (ios_write s d) = length (buf s @ d)"
  by (simp add: ios_write_def)

lemma write_srctext_dep_appends:
  assumes "bpos f = length (buf f)"
  shows "buf (fst (write_srctext_dep fs mm d (f, w))) =
           buf f @ concat (map srctext_record (included fs mm [d])) \<and>
         bpos (fst (write_srctext_dep fs mm d (f, w))) =
           length (buf (fst (write_srctext_dep fs mm d (f, w))))"
proof -
  obtain depmod dep where d: "d = (depmod, dep)" by (cases d)
  show ?thesis
  proof (cases "depmod \<noteq> mm \<and> \<not> depstr_empty dep")
    case False
    then show ?thesis using assms d by (auto simp: write_srctext_dep_def included_def)
  next
    case True
    show ?thesis
    proof (cases "fs (c_string dep)")
      case None
      then show ?thesis using assms d True by (simp add: write_srctext_dep_def included_def)
    next
      case (Some srctext)
      define f1 where "f1 = write_int32 f (of_nat (length dep))"
      define f2 where "f2 = ios_write f1 dep"
      define f3 where "f3 = write_uint64 f2 0"
      define f4 where "f4 = ios_write f3 srctext"
      define f5 where "f5 = ios_seek f4 (ios_pos f2)"
      define f6 where "f6 = write_uint64 f5 (of_nat (length srctext))"
      have b1: "buf f1 = buf f @ le_bytes 4 (length dep)" and p1: "bpos f1 = length (buf f1)"
        using assms by (simp_all add: f1_def write_int32_def ios_write_def le_bytes_4_word length_le_bytes)
      have b2: "buf f2 = buf f @ le_bytes 4 (length dep) @ dep" and p2: "bpos f2 = length (buf f2)"
        using b1 p1 by (simp_all add: f2_def ios_write_def)
      have b3: "buf f3 = buf f2 @ le_bytes 8 0" and p3: "bpos f3 = length (buf f3)"
        using p2 by (simp_all add: f3_def write_uint64_def ios_write_def length_le_bytes)
      have b4: "buf f4 = buf f2 @ le_bytes 8 0 @ srctext" and p4: "bpos f4 = length (buf f4)"
        using b3 p3 by (simp_all add: f4_def ios_write_def)
      have b5: "buf f5 = buf f4" and p5: "bpos f5 = length (buf f2)"
        using b4 p2 by (simp_all add: f5_def ios_seek_def ios_pos_def)
      have b6: "buf f6 = buf f2 @ le_bytes 8 (length srctext) @ srctext"
        using b5 p5 b4
        by (simp add: f6_def write_uint64_def ios_write_def le_bytes_8_word length_le_bytes)
      have res: "write_srctext_dep fs mm d (f, w) = (ios_seek_end f6, w)"
        using d True Some
        by (simp add: write_srctext_dep_def Let_def f1_def f2_def f3_def f4_def f5_def f6_def)
      have inc: "included fs mm [d] = [(dep, srctext)]"
        using d True Some by (simp add: included_def)
      show ?thesis
        by (simp add: res inc ios_seek_end_def b6 b2 srctext_record_def)
    qed
  qed
qed

lemma included_Cons: "included fs mm (d # ds) = included fs mm [d] @ included fs mm ds"
  by (simp add: included_def)

lemma write_srctext_fold_appends:
  assumes "bpos f = length (buf f)"
  shows "buf (fst (fold (write_srctext_dep fs mm) deps (f, w))) =
           buf f @ concat (map srctext_record (included fs mm deps)) \<and>
         bpos (fst (fold (write_srctext_dep fs mm) deps (f, w))) =
           length (buf (fst (fold (write_srctext_dep fs mm) deps (f, w))))"
  using assms
proof (induction deps arbitrary: f w)
  case Nil
  then show ?case by (simp add: included_def)
next
  case (Cons d deps)
  obtain f1 w1 where s: "write_srctext_dep fs mm d (f, w) = (f1, w1)"
    by (cases "write_srctext_dep fs mm d (f, w)")
  from write_srctext_dep_appends [OF Cons.prems, of fs mm d w] s
  have b: "buf f1 = buf f @ concat (map srctext_record (included fs mm [d]))"
    and p: "bpos f1 = length (buf f1)" by simp_all
  from Cons.IH [OF p, of w1] show ?case
    by (simp add: s b included_Cons [of fs mm d deps])
qed

lemma write_srctext_layout:
  "buf (fst (write_srctext fs mm f (Some deps) srctextpos)) =
     buf (write_uint64 (ios_seek f srctextpos) (of_nat (ios_pos f))) @
     srctext_block (included fs mm deps) \<and>
   bpos (fst (write_srctext fs mm f (Some deps) srctextpos)) =
     length (buf (fst (write_srctext fs mm f (Some deps) srctextpos)))"
proof -
  define f2 where "f2 = write_uint64 (ios_seek f srctextpos) (of_nat (ios_pos f))"
  have e: "bpos (ios_seek_end f2) = length (buf (ios_seek_end f2))"
    by (simp add: ios_seek_end_def)
  obtain f' w' where r: "fold (write_srctext_dep fs mm) deps (ios_seek_end f2, []) = (f', w')"
    by (cases "fold (write_srctext_dep fs mm) deps (ios_seek_end f2, [])")
  from write_srctext_fold_appends [OF e, of fs mm deps "[]"] r
  have b: "buf f' = buf f2 @ concat (map srctext_record (included fs mm deps))"
    and p: "bpos f' = length (buf f')" by (simp_all add: ios_seek_end_def)
  have "write_srctext fs mm f (Some deps) srctextpos = (write_int32 f' 0, w')"
    using r by (simp add: write_srctext_def Let_def f2_def)
  then show ?thesis
    using b p
    by (simp add: f2_def [symmetric] write_int32_def ios_write_def srctext_block_def length_le_bytes)
qed

subsection \<open>Writes inside the buffer\<close>

lemma ios_write_overwrite: "buf (ios_write s d) = overwrite (bpos s) d (buf s)"
  by (simp add: ios_write_def overwrite_def)

lemma length_overwrite:
  "p + length d \<le> length bs \<Longrightarrow> length (overwrite p d bs) = length bs"
  by (simp add: overwrite_def)




lemma take_drop_append_inside:
  "a + n \<le> length xs \<Longrightarrow> take n (drop a (xs @ ys)) = take n (drop a xs)"
  by simp

lemma read_uint64_written:
  assumes "take 8 (drop pos bs) = le_bytes 8 (unat (w :: 64 word))"
  shows "read_uint64 bs pos = w"
proof -
  have "unat w < 2 ^ LENGTH(64)" by (rule unsigned_less)
  then have "unat w < 256 ^ 8" by simp
  then have "le_nat (le_bytes 8 (unat w)) = unat w" by (rule le_nat_le_bytes)
  then show ?thesis by (simp add: read_uint64_def assms)
qed

lemma read_overwritten:
  "p \<le> length bs \<Longrightarrow> take (length d) (drop p (overwrite p d bs)) = d"
  by (simp add: overwrite_def)

lemma take_le_bytes_append: "take k (le_bytes k v @ rest) = le_bytes k v"
  by (simp add: length_le_bytes)

lemma drop_le_bytes_append: "drop k (le_bytes k v @ rest) = rest"
  by (simp add: length_le_bytes)

lemma read_srctext_sentinel: "read_srctext (le_bytes 4 0 @ rest) = Some ([], rest)"
proof -
  have n: "le_nat (le_bytes 4 0) = 0" by (rule le_nat_le_bytes) simp
  have l: "\<not> length (le_bytes 4 0 @ rest) < 4" by (simp add: length_le_bytes)
  show ?thesis
    by (subst read_srctext.simps)
       (simp only: l if_False Let_def take_le_bytes_append drop_le_bytes_append n
          simp_thms if_True)
qed

lemma read_srctext_record:
  assumes "dep \<noteq> []" and "length dep < 256 ^ 4" and "length srctext < 256 ^ 8"
    and "read_srctext after = Some (files, rest)"
  shows "read_srctext (le_bytes 4 (length dep) @ dep @ le_bytes 8 (length srctext) @ srctext @ after) =
           Some ((dep, srctext) # files, rest)"
proof -
  have n1: "le_nat (le_bytes 4 (length dep)) = length dep" by (rule le_nat_le_bytes [OF assms(2)])
  have n2: "le_nat (le_bytes 8 (length srctext)) = length srctext" by (rule le_nat_le_bytes [OF assms(3)])
  have l: "\<not> length (le_bytes 4 (length dep) @ dep @ le_bytes 8 (length srctext) @ srctext @ after) < 4"
    by (simp add: length_le_bytes)
  have z: "length dep \<noteq> 0" using assms(1) by simp
  have l2: "\<not> length (dep @ le_bytes 8 (length srctext) @ srctext @ after) < length dep + 8"
    by (simp add: length_le_bytes)
  have t2: "take (length dep) (dep @ le_bytes 8 (length srctext) @ srctext @ after) = dep" by simp
  have d2: "drop (length dep) (dep @ le_bytes 8 (length srctext) @ srctext @ after) =
              le_bytes 8 (length srctext) @ srctext @ after" by simp
  have l3: "\<not> length (srctext @ after) < length srctext" by simp
  have t3: "take (length srctext) (srctext @ after) = srctext" by simp
  have d3: "drop (length srctext) (srctext @ after) = after" by simp
  show ?thesis
    by (subst read_srctext.simps)
       (simp only: l if_False Let_def take_le_bytes_append drop_le_bytes_append n1 n2 z l2 t2 d2
          l3 t3 d3 assms(4) option.case prod.case)
qed

lemma read_srctext_block:
  assumes "\<forall>(dep, srctext)\<in>set files. dep \<noteq> [] \<and> length dep < 2 ^ 32 \<and> length srctext < 2 ^ 64"
  shows "read_srctext (srctext_block files @ rest) = Some (files, rest)"
  using assms
proof (induction files)
  case Nil
  show ?case by (simp add: srctext_block_def read_srctext_sentinel)
next
  case (Cons r files)
  obtain dep srctext where r: "r = (dep, srctext)" by (cases r)
  from Cons.prems r have ne: "dep \<noteq> []" and l1: "length dep < 256 ^ 4"
    and l2: "length srctext < 256 ^ 8" by simp_all
  have IH: "read_srctext (srctext_block files @ rest) = Some (files, rest)"
    using Cons by simp
  have blk: "srctext_block (r # files) @ rest =
      le_bytes 4 (length dep) @ dep @ le_bytes 8 (length srctext) @ srctext @
      (srctext_block files @ rest)"
    by (simp add: srctext_block_def srctext_record_def r)
  show ?case
    using read_srctext_record [OF ne l1 l2 IH] by (simp only: blk [unfolded r] r)
qed

lemma included_single:
  "included fs mm [(depmod, p)] =
     (if depmod \<noteq> mm \<and> \<not> depstr_empty p
      then (case fs (c_string p) of None \<Rightarrow> [] | Some s \<Rightarrow> [(p, s)]) else [])"
  by (simp add: included_def)

lemma included_single_mem:
  "(dep, srctext) \<in> set (included fs mm [(depmod, p)]) \<longleftrightarrow>
     dep = p \<and> depmod \<noteq> mm \<and> \<not> depstr_empty p \<and> fs (c_string p) = Some srctext"
proof (cases "depmod = mm")
  case True
  then show ?thesis by (simp add: included_single)
next
  case False
  note nm = False
  show ?thesis
  proof (cases "depstr_empty p")
    case True
    then show ?thesis by (simp add: included_single)
  next
    case False
    show ?thesis
    proof (cases "fs (c_string p)")
      case None
      then show ?thesis using nm False by (simp add: included_single)
    next
      case (Some s)
      then show ?thesis using nm False by (auto simp: included_single)
    qed
  qed
qed
lemma included_mem:
  "(dep, srctext) \<in> set (included fs mm deps) \<Longrightarrow>
     dep \<noteq> [] \<and> (\<exists>depmod. (depmod, dep) \<in> set deps) \<and> fs (c_string dep) = Some srctext"
proof (induction deps)
  case Nil
  then show ?case by (simp add: included_def)
next
  case (Cons d deps)
  obtain depmod p where d: "d = (depmod, p)" by (cases d)
  from Cons.prems [unfolded d] have "(dep, srctext) \<in> set (included fs mm [(depmod, p)]) \<or>
      (dep, srctext) \<in> set (included fs mm deps)"
    by (simp add: included_Cons [of fs mm "(depmod, p)" deps])
  then show ?case
  proof
    assume "(dep, srctext) \<in> set (included fs mm [(depmod, p)])"
    then have "dep = p \<and> \<not> depstr_empty p \<and> fs (c_string p) = Some srctext"
      by (simp add: included_single_mem)
    then show ?thesis using d by (auto simp: depstr_empty_def)
  next
    assume "(dep, srctext) \<in> set (included fs mm deps)"
    then show ?thesis using Cons.IH by auto
  qed
qed

text \<open>
  Claim C4.  Called with a dependency list, \<open>write_srctext\<close> leaves the stream as it
  was up to the patched 8-byte field at \<open>srctextpos\<close> and appends to it, for each
  included file in order, the record \<open>[int32 path length][path][uint64 byte
  count][bytes]\<close> with the count patched in, then the \<open>int32\<close> zero.  The included files
  are the dependencies whose module is not the root module, whose path is not empty and
  whose file can be opened.  Provided the path lengths fit an \<open>int32\<close> and the file
  sizes a \<open>uint64\<close>, reading the appended block back yields exactly the paths and
  contents of the included files and stops at the sentinel: it consumes the block up
  to the end of the stream, and bytes that follow a block are left unread.  When the
  stream stands at its end on entry, the offset recorded in the field at \<open>srctextpos\<close>
  is where the block starts.
\<close>

theorem srctext_roundtrip:
  assumes "\<forall>(depmod, dep)\<in>set deps. length dep < 2 ^ 31"
    and "\<forall>(depmod, dep)\<in>set deps. \<forall>srctext. fs (c_string dep) = Some srctext \<longrightarrow>
           length srctext < 2 ^ 64"
    and "header = buf (write_uint64 (ios_seek f srctextpos) (of_nat (ios_pos f)))"
    and "out = buf (fst (write_srctext fs mm f (Some deps) srctextpos))"
  shows "out = header @
           concat (map (\<lambda>(dep, srctext).
                     le_bytes 4 (length dep) @ dep @ le_bytes 8 (length srctext) @ srctext)
                   (included fs mm deps)) @
           le_bytes 4 0 \<and>
         read_srctext (drop (length header) out) = Some (included fs mm deps, []) \<and>
         (\<forall>rest. read_srctext (drop (length header) out @ rest) = Some (included fs mm deps, rest)) \<and>
         (ios_pos f = length (buf f) \<and> srctextpos + 8 \<le> length (buf f) \<longrightarrow>
            length header = length (buf f) \<and>
            read_uint64 out srctextpos = of_nat (length header))"
proof -
  have out: "out = header @ srctext_block (included fs mm deps)"
    using write_srctext_layout [of fs mm f deps srctextpos] by (simp add: assms(3,4))
  have rec: "srctext_record = (\<lambda>(dep, srctext).
                     le_bytes 4 (length dep) @ dep @ le_bytes 8 (length srctext) @ srctext)"
    by (rule ext) (simp add: srctext_record_def)
  have bounds: "\<forall>(dep, srctext)\<in>set (included fs mm deps).
                  dep \<noteq> [] \<and> length dep < 2 ^ 32 \<and> length srctext < 2 ^ 64"
  proof (clarify, intro conjI)
    fix dep srctext
    assume m: "(dep, srctext) \<in> set (included fs mm deps)"
    from included_mem [OF m] obtain depmod where ne: "dep \<noteq> []"
      and d: "(depmod, dep) \<in> set deps" and o: "fs (c_string dep) = Some srctext" by blast
    show "dep \<noteq> []" by (rule ne)
    have "length dep < 2 ^ 31" using assms(1) d by auto
    then show "length dep < 2 ^ 32" by simp
    show "length srctext < 2 ^ 64" using assms(2) d o by auto
  qed
  have rd: "read_srctext (srctext_block (included fs mm deps) @ rest) =
              Some (included fs mm deps, rest)" for rest
    by (rule read_srctext_block [OF bounds])
  have dr: "drop (length header) out = srctext_block (included fs mm deps)"
    by (simp add: out)
  have off: "length header = length (buf f) \<and> read_uint64 out srctextpos = of_nat (length header)"
    if e: "ios_pos f = length (buf f)" and t: "srctextpos + 8 \<le> length (buf f)"
  proof -
    define P where "P = le_bytes 8 (unat (of_nat (ios_pos f) :: 64 word))"
    have lP: "length P = 8" by (simp add: P_def length_le_bytes)
    have h: "header = overwrite srctextpos P (buf f)"
      using t by (simp add: assms(3) write_uint64_def ios_write_overwrite ios_seek_def P_def)
    have lh: "length header = length (buf f)"
      using t by (simp add: h length_overwrite lP)
    have "take 8 (drop srctextpos out) = take 8 (drop srctextpos header)"
      unfolding out using t by (intro take_drop_append_inside) (simp add: lh)
    also have "\<dots> = P"
      using read_overwritten [of srctextpos "buf f" P] t by (simp add: h lP)
    finally have "read_uint64 out srctextpos = of_nat (ios_pos f)"
      unfolding P_def by (rule read_uint64_written)
    then show ?thesis using lh e by simp
  qed
  have c1: "out = header @
           concat (map (\<lambda>(dep, srctext).
                     le_bytes 4 (length dep) @ dep @ le_bytes 8 (length srctext) @ srctext)
                   (included fs mm deps)) @
           le_bytes 4 0"
    by (simp add: out srctext_block_def rec)
  have c2: "read_srctext (drop (length header) out) = Some (included fs mm deps, [])"
    using rd [of "[]"] by (simp add: dr)
  have c3: "\<forall>rest. read_srctext (drop (length header) out @ rest) =
              Some (included fs mm deps, rest)"
    using rd by (simp add: dr)
  from c1 c2 c3 off show ?thesis by blast
qed

theorem srctext_roundtrip_witness:
  "buf (fst (write_srctext sample_fs 0 sample_stream (Some sample_deps) 0)) =
     [9, 0, 0, 0, 0, 0, 0, 0, 7,
      1, 0, 0, 0, 0x61, 3, 0, 0, 0, 0, 0, 0, 0, 1, 2, 3,
      0, 0, 0, 0] \<and>
   read_srctext (drop 9 (buf (fst (write_srctext sample_fs 0 sample_stream (Some sample_deps) 0)))) =
     Some ([([0x61], [1, 2, 3])], [])"
proof -
  have h1: "\<forall>(depmod, dep)\<in>set sample_deps. length dep < 2 ^ 31"
    by (simp add: sample_deps_def)
  have h2: "\<forall>(depmod, dep)\<in>set sample_deps. \<forall>srctext.
              sample_fs (c_string dep) = Some srctext \<longrightarrow> length srctext < 2 ^ 64"
    by (auto simp: sample_deps_def sample_fs_def)
  note t = srctext_roundtrip [where f = sample_stream and srctextpos = 0 and mm = 0,
      OF h1 h2 refl refl]
  have e2: "buf (write_uint64 (ios_seek sample_stream 0) (of_nat (ios_pos sample_stream))) @
        concat (map (\<lambda>(dep, srctext).
                     le_bytes 4 (length dep) @ dep @ le_bytes 8 (length srctext) @ srctext)
                   (included sample_fs 0 sample_deps)) @
        le_bytes 4 0 =
      [9, 0, 0, 0, 0, 0, 0, 0, 7,
       1, 0, 0, 0, 0x61, 3, 0, 0, 0, 0, 0, 0, 0, 1, 2, 3,
       0, 0, 0, 0]"
    by code_simp
  have e3: "length (buf (write_uint64 (ios_seek sample_stream 0) (of_nat (ios_pos sample_stream)))) = 9"
    by code_simp
  have e4: "included sample_fs 0 sample_deps = [([0x61], [1, 2, 3])]"
    by code_simp
  have c1: "buf (fst (write_srctext sample_fs 0 sample_stream (Some sample_deps) 0)) =
     [9, 0, 0, 0, 0, 0, 0, 0, 7,
      1, 0, 0, 0, 0x61, 3, 0, 0, 0, 0, 0, 0, 0, 1, 2, 3,
      0, 0, 0, 0]"
    by (rule trans [OF conjunct1 [OF t] e2])
  have c2: "read_srctext (drop 9 (buf (fst (write_srctext sample_fs 0 sample_stream (Some sample_deps) 0)))) =
     Some ([([0x61], [1, 2, 3])], [])"
    using conjunct1 [OF conjunct2 [OF t]] by (simp only: e3 e4)
  from c1 c2 show ?thesis by (rule conjI)
qed

section \<open>The checksum in the header\<close>







end
